theory Spec2Isabelle
  imports Complex_Main "HOL-Library.Sublist" "HOL-Library.Char_ord"
begin

section \<open>Text: characters, cleaning, containment\<close>

text \<open>
  Python strings are modelled as HOL strings; a \<^typ>\<open>char\<close> stands for the code point of
  the same number (0 to 255).  The OCR reader is built for English only: its
  characters are in that range, but for the euro sign, which is no letter, no digit
  and no white space and so behaves like any punctuation character of the range.
  Python's \<^verbatim>\<open>a in b\<close> on strings is \<^const>\<open>sublist\<close>.

  The character classes are those of Python's \<^verbatim>\<open>re\<close> on \<^verbatim>\<open>str\<close> patterns, cut down to
  the code points below 256: \<^verbatim>\<open>\d\<close> is the decimal digits, \<^verbatim>\<open>\s\<close> is what
  \<^verbatim>\<open>str.isspace\<close> accepts, \<^verbatim>\<open>[a-zA-Z0-9]\<close> is written out.
\<close>

definition isdigit :: "char \<Rightarrow> bool" where
  "isdigit c = (CHR ''0'' \<le> c \<and> c \<le> CHR ''9'')"

definition isspace :: "char \<Rightarrow> bool" where
  "isspace c = (c \<in> set [CHR 0x09, CHR 0x0A, CHR 0x0B, CHR 0x0C, CHR 0x0D,
                           CHR 0x1C, CHR 0x1D, CHR 0x1E, CHR 0x1F, CHR 0x20,
                           CHR 0x85, CHR 0xA0])"

definition isupper :: "char \<Rightarrow> bool" where
  "isupper c = (CHR ''A'' \<le> c \<and> c \<le> CHR ''Z'')"

definition islower :: "char \<Rightarrow> bool" where
  "islower c = (CHR ''a'' \<le> c \<and> c \<le> CHR ''z'')"

definition isalnum :: "char \<Rightarrow> bool" where
  "isalnum c = (islower c \<or> isupper c \<or> isdigit c)"

text \<open>\<^verbatim>\<open>str.lower\<close> on the characters that survive the cleaning: an upper-case ASCII
  letter gets bit 5 set, every other character is left alone.\<close>

definition lower :: "char \<Rightarrow> char" where
  "lower c = (if isupper c
              then (case c of Char b0 b1 b2 b3 b4 b5 b6 b7 \<Rightarrow> Char b0 b1 b2 b3 b4 True b6 b7)
              else c)"

text \<open>\<^verbatim>\<open>def clean_text(text): return re.sub(r'[^a-zA-Z0-9]', '', text).lower()\<close>\<close>

definition clean_text :: "string \<Rightarrow> string" where
  "clean_text text = map lower (filter isalnum text)"

section \<open>The regular expression of the card number\<close>

text \<open>
  \<^verbatim>\<open>re.findall(r'(\d+)\s*/\s*(\d+)', raw_ocr_text)\<close>.  The pattern is a sequence of
  character classes, each taken once, or repeated greedily (\<^verbatim>\<open>*\<close>, \<^verbatim>\<open>+\<close>), some of
  them captured as a group.  \<open>rmatch\<close> is the backtracking matcher of such a
  sequence at the start of a text: a repetition first takes the longest run of its
  class and gives characters back one by one while the rest of the pattern fails.
  It returns the captured groups and the text after the match.
\<close>

datatype quant = One | Star | Plus

datatype item = Item "char \<Rightarrow> bool" quant bool

primrec try_down :: "(nat \<Rightarrow> 'a option) \<Rightarrow> nat \<Rightarrow> nat \<Rightarrow> 'a option" where
  "try_down f lo 0 = (if lo = 0 then f 0 else None)"
| "try_down f lo (Suc k) =
     (if Suc k < lo then None
      else (case f (Suc k) of Some r \<Rightarrow> Some r | None \<Rightarrow> try_down f lo k))"

primrec rmatch :: "item list \<Rightarrow> string \<Rightarrow> (string list \<times> string) option" where
  "rmatch [] s = Some ([], s)"
| "rmatch (it # its) s =
     (case it of Item p q cap \<Rightarrow>
        let run = length (takeWhile p s);
            lo = (case q of Star \<Rightarrow> 0 | _ \<Rightarrow> 1);
            hi = (case q of One \<Rightarrow> min 1 run | _ \<Rightarrow> run)
        in try_down
             (\<lambda>k. case rmatch its (drop k s) of
                     None \<Rightarrow> None
                   | Some (gs, rest) \<Rightarrow> Some ((if cap then [take k s] else []) @ gs, rest))
             lo hi)"

text \<open>
  \<^verbatim>\<open>findall\<close> scans from the left: where the pattern matches, the groups are recorded
  and the scan goes on behind the match; elsewhere it moves on by one character.
  (After an empty match the scan also moves on by one character.)
\<close>

function findall :: "item list \<Rightarrow> string \<Rightarrow> string list list" where
  "findall its s =
     (case rmatch its s of
        Some (gs, rest) \<Rightarrow>
          if length rest < length s then gs # findall its rest
          else gs # (case s of [] \<Rightarrow> [] | _ # t \<Rightarrow> findall its t)
      | None \<Rightarrow> (case s of [] \<Rightarrow> [] | _ # t \<Rightarrow> findall its t))"
  by pat_completeness auto
termination
  by (relation "measure (\<lambda>(its, s). length s)") auto

definition card_number_re :: "item list" where
  "card_number_re =
     [Item isdigit Plus True, Item isspace Star False, Item (\<lambda>c. c = CHR ''/'') One False,
      Item isspace Star False, Item isdigit Plus True]"

text \<open>With two groups in the pattern, \<^verbatim>\<open>findall\<close> returns pairs.\<close>

fun as_pair :: "string list \<Rightarrow> string \<times> string" where
  "as_pair (a # b # _) = (a, b)"
| "as_pair _ = ([], [])"

definition card_number_matches :: "string \<Rightarrow> (string \<times> string) list" where
  "card_number_matches raw_ocr_text = map as_pair (findall card_number_re raw_ocr_text)"


text \<open>
  For this pattern no backtracking step ever succeeds, so a match at the start of a
  text is found by taking the digit and space runs whole.  \<open>fraction_at\<close> is this
  direct form; it is proved equal to \<open>rmatch card_number_re\<close> below.
\<close>

definition fraction_at :: "string \<Rightarrow> ((string \<times> string) \<times> string) option" where
  "fraction_at s =
     (let num = takeWhile isdigit s;
          r1 = dropWhile isspace (dropWhile isdigit s)
      in if num = [] then None
         else (case r1 of
                 [] \<Rightarrow> None
               | c # r2 \<Rightarrow>
                   if c \<noteq> CHR ''/'' then None
                   else let r3 = dropWhile isspace r2; den = takeWhile isdigit r3
                        in if den = [] then None else Some ((num, den), dropWhile isdigit r3)))"


text \<open>
  The specification's wording of the extraction.  \<open>fraction_text m num den\<close>: the
  text \<open>m\<close> is one or more digits \<open>num\<close>, optional whitespace, a slash, optional
  whitespace, one or more digits \<open>den\<close>.  \<open>fraction_scan text ms\<close>: \<open>ms\<close> are the
  non-overlapping matches of that pattern in \<open>text\<close>, in order of appearance: the
  first pair comes from the leftmost match, taken as long as possible, and the others
  from the text behind it.
\<close>

definition fraction_text :: "string \<Rightarrow> string \<Rightarrow> string \<Rightarrow> bool" where
  "fraction_text m num den =
     (\<exists>ws1 ws2. m = num @ ws1 @ [CHR ''/''] @ ws2 @ den \<and>
        num \<noteq> [] \<and> list_all isdigit num \<and> list_all isspace ws1 \<and>
        list_all isspace ws2 \<and> den \<noteq> [] \<and> list_all isdigit den)"

inductive fraction_scan :: "string \<Rightarrow> (string \<times> string) list \<Rightarrow> bool" where
  scan_done:
    "(\<forall>pre m rest num den. text = pre @ m @ rest \<longrightarrow> \<not> fraction_text m num den) \<Longrightarrow>
     fraction_scan text []"
| scan_match:
    "text = pre @ m @ rest \<Longrightarrow> fraction_text m num den \<Longrightarrow>
     (\<forall>pre' m' rest' num' den'.
         text = pre' @ m' @ rest' \<longrightarrow> fraction_text m' num' den' \<longrightarrow> length pre \<le> length pre') \<Longrightarrow>
     (\<forall>m' rest' num' den'.
         m @ rest = m' @ rest' \<longrightarrow> fraction_text m' num' den' \<longrightarrow> length m' \<le> length m) \<Longrightarrow>
     fraction_scan rest ms \<Longrightarrow>
     fraction_scan text ((num, den) # ms)"


section \<open>Catalog, index, responses\<close>

text \<open>
  A value read from the catalog's JSON with \<^verbatim>\<open>.get\<close>: \<^verbatim>\<open>None\<close> (the key is absent), a
  string (the card's \<^verbatim>\<open>number\<close>) or an integer (the set's \<^verbatim>\<open>printedTotal\<close>).
  \<open>py_str\<close> is Python's \<^verbatim>\<open>str()\<close> on such a value.
\<close>

datatype pyval = PyNone | PyStr string | PyInt int

fun str_nat :: "nat \<Rightarrow> string" where
  "str_nat n =
     (if n < 10 then [''0123456789'' ! n]
      else str_nat (n div 10) @ [''0123456789'' ! (n mod 10)])"

declare str_nat.simps [simp del]

definition str_int :: "int \<Rightarrow> string" where
  "str_int i = (if i < 0 then CHR ''-'' # str_nat (nat (- i)) else str_nat (nat i))"

fun py_str :: "pyval \<Rightarrow> string" where
  "py_str PyNone = ''None''"
| "py_str (PyStr s) = s"
| "py_str (PyInt i) = str_int i"

text \<open>
  The catalog records (\<^verbatim>\<open>processor.all_cards\<close>), with the keys the scan reads.
  \<open>ident\<close> is the key \<^verbatim>\<open>'id'\<close>, read with \<^verbatim>\<open>card['id']\<close>; \<open>set_field\<close> is the key
  \<^verbatim>\<open>'set'\<close>.  A key read with \<^verbatim>\<open>.get(key, default)\<close> or tested with \<^verbatim>\<open>in\<close> is
  optional: \<open>None\<close> when the record has no such key.
\<close>

record set_info =
  printedTotal :: pyval

record attack =
  attack_name :: "string option"

record card =
  ident :: string
  name :: "string option"
  number :: pyval
  set_field :: "set_info option"
  attacks :: "attack list option"

text \<open>
  The search index: the two parallel arrays \<^verbatim>\<open>search_index['metadata']\<close> and
  \<^verbatim>\<open>search_index['embeddings']\<close>.  A metadata entry always carries \<^verbatim>\<open>'card_id'\<close> and
  \<^verbatim>\<open>'name'\<close> (the index builder writes both, \<^verbatim>\<open>''\<close> when it knows no card).
  The numbers of a stored vector are binary32 numbers, given here as the reals they
  denote; no arithmetic on them is done by the model itself.
\<close>

record index_meta =
  card_id :: string
  meta_name :: string

record search_index =
  metadata :: "index_meta list"
  embeddings :: "real list list"

record candidate =
  score :: int
  index :: nat
  meta :: index_meta

datatype error = KeyError string | IndexError | ValueError

text \<open>
  What the endpoint answers: the match document (status 200: the card, the score and
  the match method; \<^verbatim>\<open>ocr_confirmed\<close> is always true), \<^verbatim>\<open>Could not find a matching card.\<close>
  (status 404), or an internal error (status 500, from the handler's \<^verbatim>\<open>except Exception\<close>).
\<close>

datatype response = Match card int string | NotFound | InternalError error

text \<open>\<^verbatim>\<open>next((card for card in processor.all_cards if card['id'] == card_id), None)\<close>\<close>

definition get_full_card_details :: "string \<Rightarrow> card list \<Rightarrow> card option" where
  "get_full_card_details cid all_cards = find (\<lambda>c. ident c = cid) all_cards"

section \<open>Stages 1 and 2: fragments and card numbers\<close>

text \<open>
  \<^verbatim>\<open>sorted(list(set([clean_text(t) for t in ocr_results])), key=len, reverse=True)\<close>.
  Python does not fix the order in which a set is listed; the model lists it in the
  order of \<open>remdups\<close>.  The sort is stable and by descending length.  The scores
  depend on the set of the fragments only (\<open>name_loop_set\<close> and \<open>attack_loop_set\<close> below).
\<close>

definition detected_texts :: "string list \<Rightarrow> string list" where
  "detected_texts ocr_results =
     sort_key (\<lambda>t. - int (length t)) (remdups (map clean_text ocr_results))"

text \<open>\<^verbatim>\<open>" ".join(ocr_results)\<close>\<close>

fun join_space :: "string list \<Rightarrow> string" where
  "join_space [] = []"
| "join_space [x] = x"
| "join_space (x # y # ys) = x @ '' '' @ join_space (y # ys)"

section \<open>Stage 3: the score of a card\<close>

text \<open>
  Check 1.  The printed total is \<^verbatim>\<open>full_card_details.get('set', {}).get('printedTotal')\<close>.
  The loop stops at the first fraction that matches; there the log line reads
  \<^verbatim>\<open>full_card_details['name']\<close>, which raises \<^verbatim>\<open>KeyError\<close> on a record without that key.
\<close>

definition set_total :: "card \<Rightarrow> pyval" where
  "set_total c = (case set_field c of None \<Rightarrow> PyNone | Some s \<Rightarrow> printedTotal s)"

definition number_matches :: "card \<Rightarrow> string \<times> string \<Rightarrow> bool" where
  "number_matches c m =
     (case m of (ocr_num, ocr_total) \<Rightarrow>
        py_str (number c) = ocr_num \<and> py_str (set_total c) = ocr_total)"

fun number_loop :: "card \<Rightarrow> (string \<times> string) list \<Rightarrow> error + int" where
  "number_loop c [] = Inr 0"
| "number_loop c (m # ms) =
     (if number_matches c m
      then (case name c of None \<Rightarrow> Inl (KeyError ''name'') | Some _ \<Rightarrow> Inr 100)
      else number_loop c ms)"

definition number_check :: "card \<Rightarrow> (string \<times> string) list \<Rightarrow> error + int" where
  "number_check c ms = (if ms \<noteq> [] then number_loop c ms else Inr 0)"

text \<open>Check 2, on \<^verbatim>\<open>clean_text(full_card_details.get('name', ''))\<close>.\<close>

definition name_qualifies :: "string \<Rightarrow> string \<Rightarrow> bool" where
  "name_qualifies card_name_clean t =
     (4 \<le> length t \<and> (sublist t card_name_clean \<or> sublist card_name_clean t))"

fun name_loop :: "string \<Rightarrow> string list \<Rightarrow> int" where
  "name_loop card_name_clean [] = 0"
| "name_loop card_name_clean (t # ts) =
     (if name_qualifies card_name_clean t then 20 else name_loop card_name_clean ts)"

definition card_name_clean :: "card \<Rightarrow> string" where
  "card_name_clean c = clean_text (case name c of None \<Rightarrow> [] | Some n \<Rightarrow> n)"

definition name_check :: "card \<Rightarrow> string list \<Rightarrow> int" where
  "name_check c texts = name_loop (card_name_clean c) texts"

text \<open>Check 3, on \<^verbatim>\<open>clean_text(attack.get('name', ''))\<close> for every attack of the list.\<close>

definition attack_name_clean :: "attack \<Rightarrow> string" where
  "attack_name_clean a = clean_text (case attack_name a of None \<Rightarrow> [] | Some n \<Rightarrow> n)"

definition attack_matches :: "string list \<Rightarrow> attack \<Rightarrow> bool" where
  "attack_matches texts a =
     (attack_name_clean a \<noteq> [] \<and> list_ex (\<lambda>t. sublist (attack_name_clean a) t) texts)"

fun attack_loop :: "string list \<Rightarrow> attack list \<Rightarrow> int" where
  "attack_loop texts [] = 0"
| "attack_loop texts (a # as) =
     (if attack_matches texts a then 10 else 0) + attack_loop texts as"

definition attack_check :: "card \<Rightarrow> string list \<Rightarrow> int" where
  "attack_check c texts = (case attacks c of None \<Rightarrow> 0 | Some as \<Rightarrow> attack_loop texts as)"

definition score_card :: "card \<Rightarrow> (string \<times> string) list \<Rightarrow> string list \<Rightarrow> error + int" where
  "score_card c ms texts =
     (case number_check c ms of
        Inl e \<Rightarrow> Inl e
      | Inr s \<Rightarrow> Inr (s + name_check c texts + attack_check c texts))"

text \<open>
  The sweep over \<^verbatim>\<open>enumerate(search_index['metadata'])\<close>.  An entry whose card is not
  in the catalog is passed over (\<^verbatim>\<open>continue\<close>); an entry is appended to \<^verbatim>\<open>card_scores\<close>
  when its score is above zero; an exception ends the sweep.
\<close>

fun score_all ::
  "card list \<Rightarrow> (string \<times> string) list \<Rightarrow> string list \<Rightarrow> (nat \<times> index_meta) list \<Rightarrow>
   error + candidate list" where
  "score_all all_cards ms texts [] = Inr []"
| "score_all all_cards ms texts ((i, indexed_meta) # rest) =
     (case get_full_card_details (card_id indexed_meta) all_cards of
        None \<Rightarrow> score_all all_cards ms texts rest
      | Some c \<Rightarrow>
          (case score_card c ms texts of
             Inl e \<Rightarrow> Inl e
           | Inr s \<Rightarrow>
               (case score_all all_cards ms texts rest of
                  Inl e \<Rightarrow> Inl e
                | Inr card_scores \<Rightarrow>
                    Inr (if 0 < s
                         then \<lparr>score = s, index = i, meta = indexed_meta\<rparr> # card_scores
                         else card_scores))))"

section \<open>Stage 4: the best match\<close>

text \<open>
  \<^verbatim>\<open>card_scores.sort(key=lambda x: x['score'], reverse=True)\<close>: Python's sort is stable,
  also with \<^verbatim>\<open>reverse=True\<close>, so candidates of equal score keep the order of the index.
\<close>

definition sort_by_score :: "candidate list \<Rightarrow> candidate list" where
  "sort_by_score card_scores = sort_key (\<lambda>c. - score c) card_scores"

definition best_candidates :: "candidate list \<Rightarrow> candidate list" where
  "best_candidates card_scores =
     (let sorted = sort_by_score card_scores; top_score = score (hd sorted)
      in filter (\<lambda>c. score c = top_score) sorted)"

text \<open>
  \<^verbatim>\<open>similarities = 1 - cdist(query_embedding.reshape(1, -1), tiebreaker_embeddings, 'cosine')\<close>.
  The cosine distance is computed by a library (\<^verbatim>\<open>scipy\<close>) in binary64; what it
  returns is not decided by the code of the scanner, so the model takes it as a
  parameter: \<open>sim q v\<close> is the value of \<^verbatim>\<open>1 - cdist(q, v, 'cosine')\<close> for the query \<open>q\<close> and
  one stored vector \<open>v\<close>, a binary64 number, or \<open>None\<close> for \<^verbatim>\<open>nan\<close>.  Stored vectors whose
  length is not that of the query make \<^verbatim>\<open>cdist\<close> raise \<^verbatim>\<open>ValueError\<close>.
\<close>

type_synonym similarity = "real list \<Rightarrow> real list \<Rightarrow> real option"

definition similarities ::
  "similarity \<Rightarrow> real list \<Rightarrow> real list list \<Rightarrow> error + real option list" where
  "similarities sim q vs =
     (if list_all (\<lambda>v. length v = length q) vs then Inr (map (sim q) vs)
      else Inl ValueError)"

text \<open>
  \<^verbatim>\<open>np.argmax\<close>: the position of the first largest value; a \<^verbatim>\<open>nan\<close> counts as larger than
  every number, and the first \<^verbatim>\<open>nan\<close> ends the search.  On an empty array it raises.
\<close>

fun argmax_loop :: "nat \<Rightarrow> real option \<Rightarrow> nat \<Rightarrow> real option list \<Rightarrow> nat" where
  "argmax_loop bi bv i [] = bi"
| "argmax_loop bi None i (x # xs) = bi"
| "argmax_loop bi (Some b) i (None # xs) = i"
| "argmax_loop bi (Some b) i (Some v # xs) =
     (if \<not> v \<le> b then argmax_loop i (Some v) (Suc i) xs
      else argmax_loop bi (Some b) (Suc i) xs)"

definition np_argmax :: "real option list \<Rightarrow> error + nat" where
  "np_argmax xs = (case xs of [] \<Rightarrow> Inl ValueError | x # rest \<Rightarrow> Inr (argmax_loop 0 x 1 rest))"

text \<open>\<^verbatim>\<open>[search_index['embeddings'][c['index']] for c in best_candidates]\<close>\<close>

fun tiebreaker_embeddings :: "real list list \<Rightarrow> candidate list \<Rightarrow> error + real list list" where
  "tiebreaker_embeddings embs [] = Inr []"
| "tiebreaker_embeddings embs (c # cs) =
     (if index c < length embs
      then (case tiebreaker_embeddings embs cs of
              Inl e \<Rightarrow> Inl e
            | Inr vs \<Rightarrow> Inr (embs ! index c # vs))
      else Inl IndexError)"

definition best_match_index ::
  "similarity \<Rightarrow> search_index \<Rightarrow> candidate list \<Rightarrow> real list \<Rightarrow> error + nat" where
  "best_match_index sim si best q =
     (case tiebreaker_embeddings (embeddings si) best of
        Inl e \<Rightarrow> Inl e
      | Inr vs \<Rightarrow> (case similarities sim q vs of Inl e \<Rightarrow> Inl e | Inr sims \<Rightarrow> np_argmax sims))"

text \<open>
  The end of the handler: with a card chosen, the log line reads
  \<^verbatim>\<open>final_match['metadata']['name']\<close> (\<^verbatim>\<open>KeyError\<close> on a record without that key), then the
  match document is returned; with no card, the answer is 404.
\<close>

definition respond :: "card option \<Rightarrow> int \<Rightarrow> string \<Rightarrow> response" where
  "respond final_match_card top_score match_method =
     (case final_match_card of
        None \<Rightarrow> NotFound
      | Some c \<Rightarrow>
          (case name c of
             None \<Rightarrow> InternalError (KeyError ''name'')
           | Some _ \<Rightarrow> Match c top_score match_method))"

text \<open>
  \<open>scan_card\<close>, from the OCR result on.  \<open>ocr_results\<close> is what the OCR reader returns
  for the image; \<open>query_embedding\<close> is what \<^verbatim>\<open>get_single_image_embedding\<close> returns for
  it, \<open>None\<close> when the embedding fails (\<^verbatim>\<open>process_image\<close> catches every exception and
  returns \<^verbatim>\<open>None\<close>); \<open>sim\<close> is the similarity that the library computes.  The checks
  before the OCR (no file, server not initialised, image not readable) and the
  temporary file of the tie-break are not modelled.
\<close>

definition scan_card ::
  "similarity \<Rightarrow> card list \<Rightarrow> search_index \<Rightarrow> string list \<Rightarrow> real list option \<Rightarrow>
   response" where
  "scan_card sim all_cards si ocr_results query_embedding =
     (let texts = detected_texts ocr_results;
          raw_ocr_text = join_space ocr_results;
          ms = card_number_matches raw_ocr_text
      in case score_all all_cards ms texts (enumerate 0 (metadata si)) of
           Inl e \<Rightarrow> InternalError e
         | Inr card_scores \<Rightarrow>
             if card_scores = [] then NotFound
             else
               let top_score = score (hd (sort_by_score card_scores));
                   best = best_candidates card_scores
               in if length best = 1
                  then respond (get_full_card_details (card_id (meta (best ! 0))) all_cards)
                         top_score ''Scoring''
                  else (case query_embedding of
                          None \<Rightarrow> respond None top_score ''Scoring''
                        | Some q \<Rightarrow>
                            (case best_match_index sim si best q of
                               Inl e \<Rightarrow> InternalError e
                             | Inr j \<Rightarrow>
                                 respond
                                   (get_full_card_details (card_id (meta (best ! j))) all_cards)
                                   top_score ''Scoring with Image Tie-break'')))"

section \<open>The full-index search\<close>







section \<open>Binary floating-point arithmetic\<close>

text \<open>
  The arithmetic of the libraries, for the examples.  An operation on binary
  floating-point numbers returns the exact result rounded to the nearest number of
  \<open>p\<close> significant bits, the one with an even last bit when two are equally near;
  below 2 to the power \<open>emin\<close> the spacing of the numbers stays what it is there.
  Binary64 has 53 bits and \<open>emin = -1022\<close>, binary32 has 24 bits and \<open>emin = -126\<close>.
  Overflow is left out: no number of the examples comes near it.
\<close>

definition round_even :: "real \<Rightarrow> int" where
  "round_even y =
     (let f = \<lfloor>y\<rfloor>
      in if y - of_int f < 1 / 2 then f
         else if 1 / 2 < y - of_int f then f + 1
         else if even f then f else f + 1)"

definition ulp :: "nat \<Rightarrow> int \<Rightarrow> real \<Rightarrow> real" where
  "ulp p emin x = 2 powr (of_int (max \<lfloor>log 2 \<bar>x\<bar>\<rfloor> emin) - (of_nat p - 1))"

definition round_binary :: "nat \<Rightarrow> int \<Rightarrow> real \<Rightarrow> real" where
  "round_binary p emin x =
     (if x = 0 then 0 else of_int (round_even (x / ulp p emin x)) * ulp p emin x)"

definition fl64 :: "real \<Rightarrow> real" where
  "fl64 = round_binary 53 (- 1022)"


text \<open>
  The cosine distance of \<^verbatim>\<open>cdist\<close> on two rows: the dot product and the squares of the
  norms are summed from left to right, the quotient \<open>u\<cdot>v / (\<parallel>u\<parallel> \<parallel>v\<parallel>)\<close> is cut to the
  interval from -1 to 1, and the distance is 1 minus the quotient.  When the product
  of the norms is zero, the quotient is \<^verbatim>\<open>0 / 0\<close>, that is \<^verbatim>\<open>nan\<close>, or an infinity, which
  is cut to 1 or -1.  \<open>similarity64\<close> is 1 minus that distance.
\<close>

fun dot64_loop :: "real \<Rightarrow> real list \<Rightarrow> real list \<Rightarrow> real" where
  "dot64_loop s (a # u) (b # v) = dot64_loop (fl64 (s + fl64 (a * b))) u v"
| "dot64_loop s u v = s"

definition dot64 :: "real list \<Rightarrow> real list \<Rightarrow> real" where
  "dot64 u v = dot64_loop 0 u v"

definition norm64 :: "real list \<Rightarrow> real" where
  "norm64 u = fl64 (sqrt (dot64 u u))"

definition cdist_cosine64 :: "real list \<Rightarrow> real list \<Rightarrow> real option" where
  "cdist_cosine64 u v =
     (let p = dot64 u v; d = fl64 (norm64 u * norm64 v)
      in if d = 0 then (if p = 0 then None else Some (fl64 (1 - sgn p)))
         else let c = fl64 (p / d);
                  cosine = (if 1 < \<bar>c\<bar> then sgn c else c)
              in Some (fl64 (1 - cosine)))"

definition similarity64 :: similarity where
  "similarity64 q v = map_option (\<lambda>d. fl64 (1 - d)) (cdist_cosine64 q v)"





section \<open>Notions of the properties\<close>

text \<open>
  The cosine similarity of two vectors in exact arithmetic, and the first position of
  the largest value of a list (the strict maximum when it exists, the first of the
  largest values when several are equal).
\<close>

definition dot :: "real list \<Rightarrow> real list \<Rightarrow> real" where
  "dot u v = sum_list (map2 (*) u v)"

definition norm2 :: "real list \<Rightarrow> real" where
  "norm2 u = sqrt (dot u u)"

definition cosine_similarity :: "real list \<Rightarrow> real list \<Rightarrow> real" where
  "cosine_similarity u v = dot u v / (norm2 u * norm2 v)"

definition is_first_max :: "real list \<Rightarrow> nat \<Rightarrow> bool" where
  "is_first_max xs j =
     (j < length xs \<and> (\<forall>k<length xs. xs ! k \<le> xs ! j) \<and> (\<forall>k<j. xs ! k < xs ! j))"


text \<open>
  Adding one more attack to a catalog record (the attack list is created when the
  record has none).
\<close>

definition add_attack :: "attack \<Rightarrow> card \<Rightarrow> card" where
  "add_attack a c = c\<lparr>attacks := Some ((case attacks c of None \<Rightarrow> [] | Some as \<Rightarrow> as) @ [a])\<rparr>"

text \<open>The index without its entry at position \<open>k\<close>: the metadata and its vector.\<close>

definition remove_entry :: "nat \<Rightarrow> search_index \<Rightarrow> search_index" where
  "remove_entry k si =
     \<lparr>metadata = take k (metadata si) @ drop (Suc k) (metadata si),
      embeddings = take k (embeddings si) @ drop (Suc k) (embeddings si)\<rparr>"

text \<open>
  A small catalog and index: two cards of the same name, from different sets, the
  two candidates they give for the OCR text \<open>Pikachu\<close>, and the same index with one
  more entry in front, whose catalog id is not in the catalog.
\<close>

definition pikachu_a :: card where
  "pikachu_a = \<lparr>ident = ''sv1-49'', name = Some ''Pikachu'', number = PyStr ''049'',
                set_field = Some \<lparr>printedTotal = PyInt 182\<rparr>,
                attacks = Some [\<lparr>attack_name = Some ''Thunder Shock''\<rparr>]\<rparr>"

definition pikachu_b :: card where
  "pikachu_b = \<lparr>ident = ''sv2-12'', name = Some ''Pikachu'', number = PyStr ''12'',
                set_field = Some \<lparr>printedTotal = PyInt 95\<rparr>,
                attacks = None\<rparr>"

definition example_cards :: "card list" where
  "example_cards = [pikachu_a, pikachu_b]"

definition example_index :: search_index where
  "example_index =
     \<lparr>metadata = [\<lparr>card_id = ''sv1-49'', meta_name = ''Pikachu''\<rparr>,
                  \<lparr>card_id = ''sv2-12'', meta_name = ''Pikachu''\<rparr>],
      embeddings = [[1, 0], [0, 1]]\<rparr>"

definition cand_a :: candidate where
  "cand_a = \<lparr>score = 20, index = 0, meta = \<lparr>card_id = ''sv1-49'', meta_name = ''Pikachu''\<rparr>\<rparr>"

definition cand_b :: candidate where
  "cand_b = \<lparr>score = 20, index = 1, meta = \<lparr>card_id = ''sv2-12'', meta_name = ''Pikachu''\<rparr>\<rparr>"

definition drifted_index :: search_index where
  "drifted_index =
     \<lparr>metadata = [\<lparr>card_id = [], meta_name = []\<rparr>,
                  \<lparr>card_id = ''sv1-49'', meta_name = ''Pikachu''\<rparr>,
                  \<lparr>card_id = ''sv2-12'', meta_name = ''Pikachu''\<rparr>],
      embeddings = [[0, 1], [1, 0], [0, 1]]\<rparr>"

text \<open>
  The index of the two cards with stored vectors that differ by less than the
  rounding of binary64: the square of the norm of the first, 1 plus 2 to the power -60,
  rounds to 1.  Both numbers of the vector are binary32 numbers.
\<close>

definition close_vector :: "real list" where
  "close_vector = [1, 1 / 2 ^ 30]"

definition close_index :: search_index where
  "close_index =
     \<lparr>metadata = [\<lparr>card_id = ''sv1-49'', meta_name = ''Pikachu''\<rparr>,
                  \<lparr>card_id = ''sv2-12'', meta_name = ''Pikachu''\<rparr>],
      embeddings = [close_vector, [1, 0]]\<rparr>"







section \<open>The card-number pattern: the matcher in direct form\<close>

lemma digit_not_space: "isdigit c \<Longrightarrow> \<not> isspace c"
  by (auto simp: isdigit_def isspace_def)

lemma digit_not_slash: "isdigit c \<Longrightarrow> c \<noteq> CHR ''/''"
  by (auto simp: isdigit_def)

lemma space_not_slash: "isspace c \<Longrightarrow> c \<noteq> CHR ''/''"
  by (auto simp: isspace_def)

lemma try_down_below: "hi < lo \<Longrightarrow> try_down f lo hi = None"
  by (cases hi) auto

lemma try_down_first:
  "lo \<le> hi \<Longrightarrow> (\<And>k. lo \<le> k \<Longrightarrow> k < hi \<Longrightarrow> f k = None) \<Longrightarrow> try_down f lo hi = f hi"
proof (induction hi)
  case 0
  then show ?case by simp
next
  case (Suc hi)
  show ?case
  proof (cases "f (Suc hi)")
    case (Some r)
    with Suc.prems show ?thesis by simp
  next
    case None
    show ?thesis
    proof (cases "lo \<le> hi")
      case True
      have "try_down f lo hi = f hi"
        using True Suc.prems(2) by (intro Suc.IH) auto
      moreover have "f hi = None"
        using True Suc.prems(2)[of hi] by simp
      ultimately show ?thesis using None Suc.prems(1) by simp
    next
      case False
      then have "try_down f lo hi = None" by (simp add: try_down_below)
      with None Suc.prems(1) show ?thesis by simp
    qed
  qed
qed

lemma try_down_top: "lo \<le> hi \<Longrightarrow> f hi = Some r \<Longrightarrow> try_down f lo hi = Some r"
  by (cases hi) auto

lemma drop_in_run:
  assumes "k < length (takeWhile p s)"
  shows "\<exists>c t. drop k s = c # t \<and> p c"
proof -
  have kl: "k < length s"
    using assms length_takeWhile_le[of p s] by (meson less_le_trans)
  have "takeWhile p s ! k = s ! k"
    using assms by (rule takeWhile_nth)
  moreover have "takeWhile p s ! k \<in> set (takeWhile p s)"
    using assms by simp
  ultimately have "p (s ! k)"
    by (metis set_takeWhileD)
  moreover have "drop k s = s ! k # drop (Suc k) s"
    using kl by (simp add: Cons_nth_drop_Suc)
  ultimately show ?thesis by blast
qed

lemma space_not_digit: "isspace c \<Longrightarrow> \<not> isdigit c"
  using digit_not_space by blast

lemma rmatch_Plus_last:
  "rmatch [Item p Plus True] s =
     (if takeWhile p s = [] then None else Some ([takeWhile p s], dropWhile p s))"
proof (cases "takeWhile p s = []")
  case True
  then show ?thesis by (simp add: Let_def)
next
  case False
  then have "1 \<le> length (takeWhile p s)"
    by (cases "takeWhile p s") auto
  then have "try_down (\<lambda>k. Some ([take k s], drop k s)) 1 (length (takeWhile p s)) =
               Some ([take (length (takeWhile p s)) s], drop (length (takeWhile p s)) s)"
    by (intro try_down_top) auto
  with False show ?thesis
    by (simp add: Let_def takeWhile_eq_take[symmetric] dropWhile_eq_drop[symmetric])
qed

lemma rmatch_Star_skip:
  assumes "\<And>c t. p c \<Longrightarrow> rmatch its (c # t) = None"
  shows "rmatch (Item p Star False # its) s = rmatch its (dropWhile p s)"
proof -
  let ?f = "\<lambda>k. case rmatch its (drop k s) of
                    None \<Rightarrow> None
                  | Some (gs, rest) \<Rightarrow> Some ((if False then [take k s] else []) @ gs, rest)"
  let ?n = "length (takeWhile p s)"
  have "rmatch (Item p Star False # its) s = try_down ?f 0 ?n"
    by (simp add: Let_def)
  also have "\<dots> = ?f ?n"
  proof (rule try_down_first)
    fix k assume "k < ?n"
    then obtain c t where "drop k s = c # t" "p c"
      using drop_in_run by blast
    then show "?f k = None" using assms by simp
  qed simp
  also have "\<dots> = rmatch its (dropWhile p s)"
    by (simp add: dropWhile_eq_drop[symmetric] split: option.splits)
  finally show ?thesis .
qed

lemma rmatch_Plus_cap:
  assumes "\<And>c t. p c \<Longrightarrow> rmatch its (c # t) = None"
  shows "rmatch (Item p Plus True # its) s =
           (if takeWhile p s = [] then None
            else (case rmatch its (dropWhile p s) of
                    None \<Rightarrow> None
                  | Some (gs, rest) \<Rightarrow> Some (takeWhile p s # gs, rest)))"
proof -
  let ?f = "\<lambda>k. case rmatch its (drop k s) of
                    None \<Rightarrow> None
                  | Some (gs, rest) \<Rightarrow> Some ((if True then [take k s] else []) @ gs, rest)"
  let ?n = "length (takeWhile p s)"
  have unfold: "rmatch (Item p Plus True # its) s = try_down ?f 1 ?n"
    by (simp add: Let_def)
  show ?thesis
  proof (cases "takeWhile p s = []")
    case True
    then show ?thesis by (simp add: unfold)
  next
    case False
    then have one: "1 \<le> ?n" by (cases "takeWhile p s") auto
    have "try_down ?f 1 ?n = ?f ?n"
    proof (rule try_down_first[OF one])
      fix k assume "k < ?n"
      then obtain c t where "drop k s = c # t" "p c"
        using drop_in_run by blast
      then show "?f k = None" using assms by simp
    qed
    also have "\<dots> = (case rmatch its (dropWhile p s) of
                         None \<Rightarrow> None
                       | Some (gs, rest) \<Rightarrow> Some (takeWhile p s # gs, rest))"
      by (simp add: dropWhile_eq_drop[symmetric] takeWhile_eq_take[symmetric]
               split: option.splits)
    finally show ?thesis using False unfold by simp
  qed
qed

lemma rmatch_One:
  "rmatch (Item p One False # its) s =
     (case s of [] \<Rightarrow> None | c # t \<Rightarrow> if p c then rmatch its t else None)"
proof (cases s)
  case Nil
  then show ?thesis by (simp add: Let_def)
next
  case (Cons c t)
  show ?thesis
  proof (cases "p c")
    case True
    then have "min 1 (length (takeWhile p s)) = 1"
      using Cons by simp
    then show ?thesis using Cons True
      by (simp add: Let_def split: option.splits)
  next
    case False
    then show ?thesis using Cons by (simp add: Let_def)
  qed
qed

lemma rmatch_card_number_re:
  "rmatch card_number_re s = map_option (\<lambda>((n, d), r). ([n, d], r)) (fraction_at s)"
proof -
  let ?sl = "Item (\<lambda>c. c = CHR ''/'') One False"
  have t2: "rmatch [Item isspace Star False, Item isdigit Plus True] t =
              rmatch [Item isdigit Plus True] (dropWhile isspace t)" for t
    by (rule rmatch_Star_skip) (simp del: rmatch.simps add: rmatch_Plus_last space_not_digit)
  have t4: "rmatch [Item isspace Star False, ?sl, Item isspace Star False, Item isdigit Plus True] t =
              rmatch [?sl, Item isspace Star False, Item isdigit Plus True] (dropWhile isspace t)" for t
    by (rule rmatch_Star_skip) (simp del: rmatch.simps add: rmatch_One space_not_slash)
  have t5: "rmatch card_number_re s =
              (if takeWhile isdigit s = [] then None
               else (case rmatch [Item isspace Star False, ?sl, Item isspace Star False,
                                  Item isdigit Plus True] (dropWhile isdigit s) of
                       None \<Rightarrow> None
                     | Some (gs, rest) \<Rightarrow> Some (takeWhile isdigit s # gs, rest)))"
    unfolding card_number_re_def
  proof (rule rmatch_Plus_cap)
    fix c t assume "isdigit c"
    then show "rmatch [Item isspace Star False, ?sl, Item isspace Star False,
                       Item isdigit Plus True] (c # t) = None"
      by (simp del: rmatch.simps add: t4 rmatch_One digit_not_space digit_not_slash)
  qed
  define r1 where "r1 = dropWhile isspace (dropWhile isdigit s)"
  have lhs: "rmatch card_number_re s =
               (if takeWhile isdigit s = [] then None
                else (case rmatch [?sl, Item isspace Star False, Item isdigit Plus True] r1 of
                        None \<Rightarrow> None
                      | Some (gs, rest) \<Rightarrow> Some (takeWhile isdigit s # gs, rest)))"
    by (simp only: t5 t4 r1_def)
  have rhs: "fraction_at s =
               (if takeWhile isdigit s = [] then None
                else (case r1 of
                        [] \<Rightarrow> None
                      | c # r2 \<Rightarrow>
                          if c \<noteq> CHR ''/'' then None
                          else if takeWhile isdigit (dropWhile isspace r2) = [] then None
                          else Some ((takeWhile isdigit s, takeWhile isdigit (dropWhile isspace r2)),
                                     dropWhile isdigit (dropWhile isspace r2))))"
    by (simp only: fraction_at_def Let_def r1_def)
  show ?thesis
    unfolding lhs rhs
    by (cases r1) (simp_all del: rmatch.simps add: rmatch_One t2 rmatch_Plus_last)
qed


lemma takeWhile_run:
  "list_all p xs \<Longrightarrow> ys = [] \<or> \<not> p (hd ys) \<Longrightarrow> takeWhile p (xs @ ys) = xs"
  by (cases ys) (auto simp: list_all_iff takeWhile_append2)

lemma dropWhile_run:
  "list_all p xs \<Longrightarrow> ys = [] \<or> \<not> p (hd ys) \<Longrightarrow> dropWhile p (xs @ ys) = ys"
  by (cases ys) (auto simp: list_all_iff dropWhile_append2)

lemma fraction_at_complete:
  assumes "fraction_text m num den"
  shows "fraction_at (m @ rest) =
           Some ((num, den @ takeWhile isdigit rest), dropWhile isdigit rest)"
proof -
  from assms obtain ws1 ws2 where
    m: "m = num @ ws1 @ [CHR ''/''] @ ws2 @ den" and
    num: "num \<noteq> []" "list_all isdigit num" and
    ws: "list_all isspace ws1" "list_all isspace ws2" and
    den: "den \<noteq> []" "list_all isdigit den"
    unfolding fraction_text_def by blast
  let ?t3 = "den @ rest"
  let ?t2 = "ws2 @ ?t3"
  let ?t1 = "ws1 @ CHR ''/'' # ?t2"
  have s: "m @ rest = num @ ?t1" by (simp add: m)
  have nd1: "\<not> isdigit (hd ?t1)"
    using ws(1) by (cases ws1) (auto dest: digit_not_space digit_not_slash)
  have tw: "takeWhile isdigit (num @ ?t1) = num"
    using num(2) nd1 by (intro takeWhile_run) auto
  have dw: "dropWhile isdigit (num @ ?t1) = ?t1"
    using num(2) nd1 by (intro dropWhile_run) auto
  have "\<not> isspace (hd (CHR ''/'' # ?t2))"
    by (auto dest: space_not_slash)
  then have r1: "dropWhile isspace ?t1 = CHR ''/'' # ?t2"
    using ws(1) by (intro dropWhile_run) auto
  have "\<not> isspace (hd ?t3)"
    using den by (cases den) (auto simp: digit_not_space)
  then have r3: "dropWhile isspace ?t2 = ?t3"
    using ws(2) by (intro dropWhile_run) auto
  have twd: "takeWhile isdigit ?t3 = den @ takeWhile isdigit rest"
    using den(2) by (simp add: list_all_iff takeWhile_append2)
  have dwd: "dropWhile isdigit ?t3 = dropWhile isdigit rest"
    using den(2) by (simp add: list_all_iff dropWhile_append2)
  show ?thesis
    unfolding s fraction_at_def Let_def tw dw r1
    using num(1) den(1) by (simp add: r3 twd dwd)
qed

lemma fraction_at_sound:
  assumes "fraction_at s = Some ((num, den), rest)"
  shows "\<exists>m. s = m @ rest \<and> fraction_text m num den \<and> (rest = [] \<or> \<not> isdigit (hd rest))"
proof -
  define r0 where "r0 = dropWhile isdigit s"
  define r1 where "r1 = dropWhile isspace r0"
  have eq: "fraction_at s =
              (if takeWhile isdigit s = [] then None
               else (case r1 of
                       [] \<Rightarrow> None
                     | c # r2 \<Rightarrow>
                         if c \<noteq> CHR ''/'' then None
                         else if takeWhile isdigit (dropWhile isspace r2) = [] then None
                         else Some ((takeWhile isdigit s, takeWhile isdigit (dropWhile isspace r2)),
                                    dropWhile isdigit (dropWhile isspace r2))))"
    by (simp only: fraction_at_def Let_def r1_def r0_def)
  from assms eq have n: "takeWhile isdigit s \<noteq> []"
    by (cases "takeWhile isdigit s = []") simp_all
  from assms eq n obtain c r2 where r1c: "r1 = c # r2"
    by (cases r1) simp_all
  define r3 where "r3 = dropWhile isspace r2"
  from assms eq n r1c have c: "c = CHR ''/''"
    by (cases "c = CHR ''/''") simp_all
  from assms eq n r1c c have d: "takeWhile isdigit r3 \<noteq> []"
    by (cases "takeWhile isdigit r3 = []") (simp_all add: r3_def)
  from assms eq n r1c c d
  have res: "num = takeWhile isdigit s" "den = takeWhile isdigit r3" "rest = dropWhile isdigit r3"
    by (simp_all add: r3_def)
  have "s = takeWhile isdigit s @ r0" by (simp add: r0_def)
  moreover have "r0 = takeWhile isspace r0 @ r1" by (simp add: r1_def)
  moreover have "r2 = takeWhile isspace r2 @ r3" by (simp add: r3_def)
  moreover have "r3 = takeWhile isdigit r3 @ rest" by (simp add: res)
  ultimately have s: "s = (num @ takeWhile isspace r0 @ [CHR ''/''] @ takeWhile isspace r2 @ den) @ rest"
    using r1c c res by (metis append.assoc append_Cons append_Nil)
  have all: "list_all p (takeWhile p xs)" for p and xs :: string
    by (auto simp: list_all_iff dest: set_takeWhileD)
  have "fraction_text (num @ takeWhile isspace r0 @ [CHR ''/''] @ takeWhile isspace r2 @ den) num den"
    unfolding fraction_text_def using n d res all by blast
  moreover have "rest = [] \<or> \<not> isdigit (hd rest)"
    unfolding res by (metis hd_dropWhile)
  ultimately show ?thesis using s by blast
qed


lemma fraction_text_nonempty: "fraction_text m num den \<Longrightarrow> m \<noteq> []"
  by (auto simp: fraction_text_def)

lemma fraction_text_extend:
  assumes "fraction_text m num den" "list_all isdigit e"
  shows "fraction_text (m @ e) num (den @ e)"
proof -
  from assms(1) obtain ws1 ws2 where
    "m = num @ ws1 @ [CHR ''/''] @ ws2 @ den" "num \<noteq> []" "list_all isdigit num"
    "list_all isspace ws1" "list_all isspace ws2" "den \<noteq> []" "list_all isdigit den"
    unfolding fraction_text_def by blast
  then have "m @ e = num @ ws1 @ [CHR ''/''] @ ws2 @ (den @ e) \<and> num \<noteq> [] \<and>
             list_all isdigit num \<and> list_all isspace ws1 \<and> list_all isspace ws2 \<and>
             den @ e \<noteq> [] \<and> list_all isdigit (den @ e)"
    using assms(2) by simp
  then show ?thesis unfolding fraction_text_def by blast
qed

lemma fraction_at_None_iff:
  "fraction_at s = None \<longleftrightarrow> (\<forall>m rest num den. s = m @ rest \<longrightarrow> \<not> fraction_text m num den)"
proof
  assume none: "fraction_at s = None"
  show "\<forall>m rest num den. s = m @ rest \<longrightarrow> \<not> fraction_text m num den"
  proof (intro allI impI notI)
    fix m rest num den
    assume "s = m @ rest" "fraction_text m num den"
    then have "fraction_at s \<noteq> None" by (simp add: fraction_at_complete)
    with none show False by simp
  qed
next
  assume no: "\<forall>m rest num den. s = m @ rest \<longrightarrow> \<not> fraction_text m num den"
  show "fraction_at s = None"
  proof (rule ccontr)
    assume "fraction_at s \<noteq> None"
    then obtain num den rest where "fraction_at s = Some ((num, den), rest)" by auto
    from fraction_at_sound[OF this] no show False by blast
  qed
qed

lemma card_number_matches_unfold:
  "card_number_matches s =
     (case fraction_at s of
        Some (p, rest) \<Rightarrow> p # card_number_matches rest
      | None \<Rightarrow> (case s of [] \<Rightarrow> [] | _ # t \<Rightarrow> card_number_matches t))"
proof (cases "fraction_at s")
  case None
  then show ?thesis
    unfolding card_number_matches_def
    by (subst findall.simps) (simp add: rmatch_card_number_re split: list.splits)
next
  case (Some a)
  then obtain num den rest where a: "fraction_at s = Some ((num, den), rest)"
    by (cases a) auto
  from fraction_at_sound[OF a] obtain m where "s = m @ rest" "fraction_text m num den"
    by blast
  then have "length rest < length s"
    using fraction_text_nonempty by (cases m) auto
  then show ?thesis
    unfolding card_number_matches_def
    by (subst findall.simps) (simp add: rmatch_card_number_re a)
qed

lemma card_number_matches_skip:
  "(\<And>k. k < length pre \<Longrightarrow> fraction_at (drop k (pre @ x)) = None) \<Longrightarrow>
   card_number_matches (pre @ x) = card_number_matches x"
proof (induction pre)
  case Nil
  then show ?case by simp
next
  case (Cons c pre)
  have "fraction_at ((c # pre) @ x) = None"
    using Cons.prems[of 0] by simp
  then have "card_number_matches ((c # pre) @ x) = card_number_matches (pre @ x)"
    by (subst card_number_matches_unfold) simp
  moreover have "card_number_matches (pre @ x) = card_number_matches x"
  proof (rule Cons.IH)
    fix k assume "k < length pre"
    then show "fraction_at (drop k (pre @ x)) = None"
      using Cons.prems[of "Suc k"] by simp
  qed
  ultimately show ?case by simp
qed

lemma fraction_scan_Cons:
  assumes "fraction_scan t ms" "fraction_at (c # t) = None"
  shows "fraction_scan (c # t) ms"
  using assms(1)
proof (cases rule: fraction_scan.cases)
  case scan_done
  have "\<forall>pre m rest num den. c # t = pre @ m @ rest \<longrightarrow> \<not> fraction_text m num den"
  proof (intro allI impI)
    fix pre m rest num den
    assume eq: "c # t = pre @ m @ rest"
    show "\<not> fraction_text m num den"
    proof (cases pre)
      case Nil
      with eq assms(2) show ?thesis by (simp add: fraction_at_None_iff)
    next
      case (Cons c' pre')
      with eq have "t = pre' @ m @ rest" by simp
      with scan_done(2) show ?thesis by blast
    qed
  qed
  then show ?thesis using scan_done(1) by (simp add: fraction_scan.scan_done)
next
  case (scan_match pre m rest num den ms')
  have left: "\<forall>pre' m' rest' num' den'.
         c # t = pre' @ m' @ rest' \<longrightarrow> fraction_text m' num' den' \<longrightarrow>
         length (c # pre) \<le> length pre'"
  proof (intro allI impI)
    fix pre' m' rest' num' den'
    assume eq: "c # t = pre' @ m' @ rest'" and ft: "fraction_text m' num' den'"
    show "length (c # pre) \<le> length pre'"
    proof (cases pre')
      case Nil
      with eq ft assms(2) show ?thesis by (simp add: fraction_at_None_iff)
    next
      case (Cons c' pre'')
      with eq have "t = pre'' @ m' @ rest'" by simp
      with scan_match(4) ft have "length pre \<le> length pre''" by blast
      with Cons show ?thesis by simp
    qed
  qed
  have "c # t = (c # pre) @ m @ rest" using scan_match(2) by simp
  from fraction_scan.scan_match[OF this scan_match(3) left scan_match(5) scan_match(6)]
  show ?thesis using scan_match(1) by simp
qed

lemma fraction_scan_exists: "fraction_scan s (card_number_matches s)"
proof (induction s rule: length_induct)
  case (1 s)
  show ?case
  proof (cases "fraction_at s")
    case None
    show ?thesis
    proof (cases s)
      case Nil
      have "\<forall>pre m rest num den. [] = pre @ m @ rest \<longrightarrow> \<not> fraction_text m num den"
        by (auto dest: fraction_text_nonempty)
      then have "fraction_scan [] []" by (rule fraction_scan.scan_done)
      moreover have "card_number_matches [] = []"
        using None Nil by (subst card_number_matches_unfold) simp
      ultimately show ?thesis using Nil by simp
    next
      case (Cons c t)
      have "card_number_matches s = card_number_matches t"
        using None Cons by (subst card_number_matches_unfold) simp
      moreover have "fraction_scan t (card_number_matches t)"
        using 1 Cons by simp
      ultimately show ?thesis
        using fraction_scan_Cons None Cons by simp
    qed
  next
    case (Some a)
    then obtain num den rest where a: "fraction_at s = Some ((num, den), rest)"
      by (cases a) auto
    from fraction_at_sound[OF a] obtain m where
      s: "s = m @ rest" and ft: "fraction_text m num den" and
      mx: "rest = [] \<or> \<not> isdigit (hd rest)"
      by blast
    have short: "length rest < length s"
      using s ft fraction_text_nonempty by (cases m) auto
    have unf: "card_number_matches s = (num, den) # card_number_matches rest"
      using a by (subst card_number_matches_unfold) simp
    have left: "\<forall>pre' m' rest' num' den'.
        s = pre' @ m' @ rest' \<longrightarrow> fraction_text m' num' den' \<longrightarrow> length ([]::string) \<le> length pre'"
      by simp
    have long: "\<forall>m' rest' num' den'.
        m @ rest = m' @ rest' \<longrightarrow> fraction_text m' num' den' \<longrightarrow> length m' \<le> length m"
    proof (intro allI impI)
      fix m' rest' num' den'
      assume eq: "m @ rest = m' @ rest'" and ft': "fraction_text m' num' den'"
      have "fraction_at (m' @ rest') =
              Some ((num', den' @ takeWhile isdigit rest'), dropWhile isdigit rest')"
        using ft' by (rule fraction_at_complete)
      with a s eq have "rest = dropWhile isdigit rest'" by simp
      then have "length rest \<le> length rest'"
        by (simp add: length_dropWhile_le)
      moreover have "length m + length rest = length m' + length rest'"
        using eq by (metis length_append)
      ultimately show "length m' \<le> length m" by simp
    qed
    have "fraction_scan rest (card_number_matches rest)"
      using 1 short by simp
    from fraction_scan.scan_match[of s "[]" m rest num den, OF _ ft left long this]
    show ?thesis using s unf by simp
  qed
qed

lemma fraction_scan_unique: "fraction_scan s ms \<Longrightarrow> ms = card_number_matches s"
proof (induction rule: fraction_scan.induct)
  case (scan_done raw)
  have "card_number_matches t = []" if "suffix t raw" for t
    using that
  proof (induction t)
    case Nil
    have "fraction_at [] = None" by (simp add: fraction_at_def)
    then show ?case by (subst card_number_matches_unfold) simp
  next
    case (Cons c t)
    from Cons.prems obtain pre where tx: "raw = pre @ c # t"
      by (auto simp: suffix_def)
    have "fraction_at (c # t) = None"
      unfolding fraction_at_None_iff
    proof (intro allI impI)
      fix m rest num den assume "c # t = m @ rest"
      then have "raw = pre @ m @ rest" using tx by simp
      with scan_done show "\<not> fraction_text m num den" by blast
    qed
    moreover have "card_number_matches t = []"
      using Cons.prems by (intro Cons.IH) (auto simp: suffix_def)
    ultimately show ?case by (subst card_number_matches_unfold) simp
  qed
  then show ?case by simp
next
  case (scan_match raw pre m rest num den ms)
  have skip: "card_number_matches (pre @ m @ rest) = card_number_matches (m @ rest)"
  proof (rule card_number_matches_skip)
    fix k assume k: "k < length pre"
    show "fraction_at (drop k (pre @ m @ rest)) = None"
    proof (rule ccontr)
      assume "fraction_at (drop k (pre @ m @ rest)) \<noteq> None"
      then obtain n d r where "fraction_at (drop k (pre @ m @ rest)) = Some ((n, d), r)"
        by auto
      from fraction_at_sound[OF this] obtain m' where
        dk: "drop k (pre @ m @ rest) = m' @ r" and ft': "fraction_text m' n d" by blast
      from dk have "raw = take k raw @ m' @ r"
        using scan_match.hyps(1) by (metis append_take_drop_id)
      with scan_match.hyps(3) ft' have "length pre \<le> length (take k raw)" by blast
      with k show False by simp
    qed
  qed
  let ?e = "takeWhile isdigit rest"
  have fa: "fraction_at (m @ rest) = Some ((num, den @ ?e), dropWhile isdigit rest)"
    using scan_match.hyps(2) by (rule fraction_at_complete)
  have "fraction_text (m @ ?e) num (den @ ?e)"
    using scan_match.hyps(2)
    by (rule fraction_text_extend) (auto simp: list_all_iff dest: set_takeWhileD)
  moreover have "m @ rest = (m @ ?e) @ dropWhile isdigit rest" by simp
  ultimately have "length (m @ ?e) \<le> length m"
    using scan_match.hyps(4) by blast
  then have e: "?e = []" by simp
  then have "dropWhile isdigit rest = rest"
    by (metis append_Nil takeWhile_dropWhile_id)
  with fa e have "fraction_at (m @ rest) = Some ((num, den), rest)" by simp
  then have "card_number_matches (m @ rest) = (num, den) # card_number_matches rest"
    by (subst card_number_matches_unfold) simp
  with skip scan_match.hyps(1) scan_match.IH show ?case by simp
qed

section \<open>Number-fraction extraction\<close>

text \<open>
  Claim C8.  For every raw text, the extraction \<open>card_number_matches\<close> returns exactly
  the non-overlapping matches of the pattern "digits, optional whitespace, slash,
  optional whitespace, digits", in order of appearance (\<open>fraction_scan\<close>), as pairs
  of the raw numerator and denominator strings.  Leading zeros are kept: \<open>049/182\<close>
  gives \<open>(049, 182)\<close>, \<open>49 / 182\<close> and \<open>49/ 182\<close> give \<open>(49, 182)\<close>, and a pair with
  numerator \<open>049\<close> differs from one with numerator \<open>49\<close>.
\<close>

theorem number_fraction_extraction:
  "(fraction_scan text ms \<longleftrightarrow> card_number_matches text = ms) \<and>
   card_number_matches ''049/182'' = [(''049'', ''182'')] \<and>
   card_number_matches ''49 / 182'' = [(''49'', ''182'')] \<and>
   card_number_matches ''49/ 182'' = [(''49'', ''182'')] \<and>
   (''049'', den) \<noteq> (''49'', den)"
proof -
  have "fraction_scan text ms \<longleftrightarrow> card_number_matches text = ms"
    using fraction_scan_exists fraction_scan_unique by blast
  moreover have "card_number_matches ''049/182'' = [(''049'', ''182'')]"
    by (simp add: card_number_matches_def card_number_re_def isdigit_def isspace_def)
  moreover have "card_number_matches ''49 / 182'' = [(''49'', ''182'')]"
    by (simp add: card_number_matches_def card_number_re_def isdigit_def isspace_def)
  moreover have "card_number_matches ''49/ 182'' = [(''49'', ''182'')]"
    by (simp add: card_number_matches_def card_number_re_def isdigit_def isspace_def)
  ultimately show ?thesis by simp
qed

theorem number_fraction_extraction_witness:
  "fraction_scan ''No. 049/182 and 7 / 9'' [(''049'', ''182''), (''7'', ''9'')]"
  using number_fraction_extraction[of "''No. 049/182 and 7 / 9''" "[(''049'', ''182''), (''7'', ''9'')]" "[]"]
  by (simp add: card_number_matches_def card_number_re_def isdigit_def isspace_def)

section \<open>The checks of the score\<close>

lemma name_loop_iff:
  "name_loop nm ts = (if \<exists>t\<in>set ts. name_qualifies nm t then 20 else 0)"
  by (induction ts) auto

lemma name_loop_first:
  "name_qualifies nm t \<Longrightarrow> name_loop nm (pre @ t # post) = name_loop nm (pre @ [t])"
  by (induction pre) auto

lemma name_loop_set: "set ts = set ts' \<Longrightarrow> name_loop nm ts = name_loop nm ts'"
  by (simp add: name_loop_iff)

lemma attack_matches_set: "set ts = set ts' \<Longrightarrow> attack_matches ts a = attack_matches ts' a"
  by (simp add: attack_matches_def list_ex_iff)

lemma attack_loop_count:
  "attack_loop texts as = 10 * int (length (filter (attack_matches texts) as))"
  by (induction as) auto

lemma attack_loop_set: "set ts = set ts' \<Longrightarrow> attack_loop ts as = attack_loop ts' as"
  by (induction as) (simp_all add: attack_matches_set[of ts ts'])

lemma attack_loop_append:
  "attack_loop texts (as @ bs) = attack_loop texts as + attack_loop texts bs"
  by (induction as) auto

lemma attack_loop_nonneg: "0 \<le> attack_loop texts as"
  by (simp add: attack_loop_count)

lemma number_loop_named:
  "name c = Some n \<Longrightarrow>
   number_loop c ms = Inr (if \<exists>m\<in>set ms. number_matches c m then 100 else 0)"
  by (induction ms) auto

lemma number_loop_nameless:
  "name c = None \<Longrightarrow>
   number_loop c ms = (if \<exists>m\<in>set ms. number_matches c m then Inl (KeyError ''name'') else Inr 0)"
  by (induction ms) auto

lemma number_check_loop: "number_check c ms = number_loop c ms"
  by (cases ms) (simp_all add: number_check_def)

lemma set_detected_texts: "set (detected_texts ocr_results) = clean_text ` set ocr_results"
  by (simp add: detected_texts_def)

lemma distinct_detected_texts: "distinct (detected_texts ocr_results)"
  by (simp add: detected_texts_def)

lemma number_check_range: "number_check c ms = Inr s \<Longrightarrow> s = 0 \<or> s = 100"
  by (cases "name c")
     (simp_all add: number_check_loop number_loop_named number_loop_nameless split: if_splits)

lemma sorted_detected_texts:
  "sorted_wrt (\<lambda>a b. length b \<le> length a) (detected_texts ocr_results)"
proof -
  have "sorted (map (\<lambda>t. - int (length t)) (detected_texts ocr_results))"
    by (simp add: detected_texts_def)
  then show ?thesis
    by (simp add: sorted_wrt_map)
qed

lemma clean_text_Nil_iff: "clean_text s = [] \<longleftrightarrow> \<not> list_ex isalnum s"
  by (simp add: clean_text_def filter_empty_conv list_ex_iff)

lemma card_name_clean_Nil_iff:
  "card_name_clean c = [] \<longleftrightarrow>
     (name c = None \<or> (\<exists>n. name c = Some n \<and> \<not> list_ex isalnum n))"
proof (cases "name c")
  case None
  then show ?thesis by (simp add: card_name_clean_def clean_text_def)
next
  case (Some n)
  then show ?thesis by (simp add: card_name_clean_def clean_text_Nil_iff)
qed


lemma score_card_Inr:
  "score_card c ms texts = Inr s \<longleftrightarrow>
     (\<exists>s1. number_check c ms = Inr s1 \<and> s = s1 + name_check c texts + attack_check c texts)"
  by (cases "number_check c ms") (auto simp: score_card_def)

lemma attack_check_nonneg: "0 \<le> attack_check c texts"
  by (simp add: attack_check_def attack_loop_nonneg split: option.splits)

lemma name_check_range: "name_check c texts = 0 \<or> name_check c texts = 20"
  by (simp add: name_check_def name_loop_iff)

text \<open>
  Claim C7.  The name check adds 20 at most once.  It adds 20 exactly when some
  fragment of length at least 4 is contained in the cleaned name of the card, or
  contains it.  The first fragment that qualifies decides: the fragments after it
  are not looked at.  The bonus enters the score of the card once.  The cleaned name
  is \<open>clean_text\<close> of the name (of the empty string when the record has no name); the
  fragments are the cleaned OCR texts, without duplicates, longest first.  The length
  bound is on the fragment in both cases (\<open>short_fragment_no_bonus\<close> below).
\<close>

theorem name_match_bonus:
  "name_check c texts =
     (if \<exists>t\<in>set texts. 4 \<le> length t \<and>
            (sublist t (card_name_clean c) \<or> sublist (card_name_clean c) t)
      then 20 else 0) \<and>
   (4 \<le> length t \<and> (sublist t (card_name_clean c) \<or> sublist (card_name_clean c) t) \<longrightarrow>
      name_check c (pre @ t # post) = name_check c (pre @ [t])) \<and>
   (score_card c ms texts = Inr s \<longrightarrow>
      (\<exists>s1. number_check c ms = Inr s1 \<and> s = s1 + name_check c texts + attack_check c texts)) \<and>
   card_name_clean c = clean_text (case name c of None \<Rightarrow> [] | Some n \<Rightarrow> n) \<and>
   set (detected_texts ocr_results) = clean_text ` set ocr_results \<and>
   distinct (detected_texts ocr_results) \<and>
   sorted_wrt (\<lambda>a b. length b \<le> length a) (detected_texts ocr_results)"
proof -
  have "name_check c texts =
     (if \<exists>t\<in>set texts. 4 \<le> length t \<and>
            (sublist t (card_name_clean c) \<or> sublist (card_name_clean c) t)
      then 20 else 0)"
    by (simp add: name_check_def name_loop_iff name_qualifies_def)
  moreover have "4 \<le> length t \<and> (sublist t (card_name_clean c) \<or> sublist (card_name_clean c) t) \<longrightarrow>
      name_check c (pre @ t # post) = name_check c (pre @ [t])"
    unfolding name_check_def
    by (intro impI name_loop_first) (simp add: name_qualifies_def)
  moreover have "score_card c ms texts = Inr s \<longrightarrow>
      (\<exists>s1. number_check c ms = Inr s1 \<and> s = s1 + name_check c texts + attack_check c texts)"
    by (simp add: score_card_Inr)
  moreover have "card_name_clean c = clean_text (case name c of None \<Rightarrow> [] | Some n \<Rightarrow> n)"
    by (simp add: card_name_clean_def)
  ultimately show ?thesis
    using set_detected_texts distinct_detected_texts sorted_detected_texts by blast
qed

lemma clean_pikachu: "clean_text ''Pikachu'' = ''pikachu''"
  by (simp add: clean_text_def isalnum_def islower_def isupper_def isdigit_def lower_def)

theorem name_match_bonus_witness:
  "name_check \<lparr>ident = ''sv1-49'', name = Some ''Pikachu'', number = PyStr ''049'',
               set_field = None, attacks = None\<rparr> [''hp60'', ''pikachu'', ''basic''] = 20"
  using name_match_bonus[of "\<lparr>ident = ''sv1-49'', name = Some ''Pikachu'', number = PyStr ''049'',
               set_field = None, attacks = None\<rparr>" "[''hp60'', ''pikachu'', ''basic'']"
               "''pikachu''" "[''hp60'']" "[''basic'']" "[]" 20 "[]"]
  by (simp add: card_name_clean_def clean_pikachu)

lemma short_fragment_no_bonus:
  "name_check \<lparr>ident = ''base1-53'', name = Some ''Mew'', number = PyStr ''53'',
               set_field = None, attacks = None\<rparr> [''mew''] = 0"
  by (simp add: name_check_def name_qualifies_def)

text \<open>
  Claim C10.  When the name of a card cleans to the empty string (the record has no
  name, or the name has no ASCII letter or digit), the name check adds 20 as soon as
  one fragment has length at least 4: the empty string is contained in every
  fragment.  A record without a name is compared as the empty string, it is not left
  out; whenever such a card gets a score, the score is at least 20.
\<close>

theorem empty_name_matches:
  assumes "name c = None \<or> (\<exists>n. name c = Some n \<and> \<not> list_ex isalnum n)"
    and "\<exists>t\<in>set texts. 4 \<le> length t"
  shows "card_name_clean c = [] \<and>
         name_check c texts = 20 \<and>
         (\<forall>s. score_card c ms texts = Inr s \<longrightarrow> 20 \<le> s)"
proof -
  from assms(1) have empty: "card_name_clean c = []"
    by (simp add: card_name_clean_Nil_iff)
  from assms(2) obtain t where t: "t \<in> set texts" "4 \<le> length t" by blast
  have "name_qualifies (card_name_clean c) t"
    using t(2) empty by (simp add: name_qualifies_def)
  then have nc: "name_check c texts = 20"
    using t(1) by (auto simp: name_check_def name_loop_iff)
  have "20 \<le> s" if "score_card c ms texts = Inr s" for s
  proof -
    from that obtain s1 where s1: "number_check c ms = Inr s1"
      and s: "s = s1 + name_check c texts + attack_check c texts"
      by (auto simp: score_card_Inr)
    from number_check_range[OF s1] have "0 \<le> s1" by auto
    with s nc attack_check_nonneg[of c texts] show ?thesis by simp
  qed
  with nc empty show ?thesis by simp
qed

theorem empty_name_matches_witness:
  "name_check \<lparr>ident = ''x-1'', name = None, number = PyNone, set_field = None,
               attacks = None\<rparr> [''charizard'', ''hp''] = 20 \<and>
   score_card \<lparr>ident = ''x-1'', name = None, number = PyNone, set_field = None,
               attacks = None\<rparr> [] [''charizard'', ''hp''] = Inr 20"
proof -
  let ?c = "\<lparr>ident = ''x-1'', name = None, number = PyNone, set_field = None, attacks = None\<rparr>"
  have a: "name ?c = None \<or> (\<exists>n. name ?c = Some n \<and> \<not> list_ex isalnum n)"
    by simp
  have b: "\<exists>t\<in>set [''charizard'', ''hp'']. 4 \<le> length t" by simp
  from empty_name_matches[OF a b, of "[]"]
  show ?thesis
    by (simp add: score_card_def number_check_def attack_check_def)
qed

lemma get_full_card_details_other:
  "cid \<noteq> ident c \<Longrightarrow> ident c' = ident c \<Longrightarrow>
   get_full_card_details cid (pre @ c' # post) = get_full_card_details cid (pre @ c # post)"
  by (induction pre) (auto simp: get_full_card_details_def)

lemma score_all_other:
  assumes "\<forall>e\<in>set es. card_id (snd e) \<noteq> ident c" and "ident c' = ident c"
  shows "score_all (pre @ c' # post) ms ts es = score_all (pre @ c # post) ms ts es"
  using assms(1)
proof (induction es)
  case Nil
  show ?case by simp
next
  case (Cons e es)
  obtain i m where e: "e = (i, m)" by (cases e)
  with Cons.prems have "card_id m \<noteq> ident c" by simp
  then have "get_full_card_details (card_id m) (pre @ c' # post) =
             get_full_card_details (card_id m) (pre @ c # post)"
    using assms(2) by (rule get_full_card_details_other)
  moreover have "score_all (pre @ c' # post) ms ts es = score_all (pre @ c # post) ms ts es"
    using Cons.prems by (intro Cons.IH) simp
  ultimately show ?case by (simp add: e split: option.splits sum.splits)
qed

text \<open>
  Claim C4.  Each attack of the list whose cleaned name is not empty and is contained
  in at least one fragment adds 10 to the score of the card, with no upper bound
  (attacks are counted as entries of the list).  Adding one more such attack to a
  card that has the score \<open>s\<close> gives it the score \<open>s + 10\<close>; every index entry with
  another catalog id is still resolved to the same record, and the sweep over such
  entries gives the same candidates with the same scores.
\<close>

theorem attack_bonus:
  "attack_check c texts =
     10 * int (length (filter (attack_matches texts) (case attacks c of None \<Rightarrow> [] | Some as \<Rightarrow> as))) \<and>
   attack_matches texts a =
     (attack_name_clean a \<noteq> [] \<and> (\<exists>t\<in>set texts. sublist (attack_name_clean a) t)) \<and>
   (attack_matches texts a \<and> score_card c ms texts = Inr s \<longrightarrow>
      score_card (add_attack a c) ms texts = Inr (s + 10)) \<and>
   (cid \<noteq> ident c \<longrightarrow>
      get_full_card_details cid (pre @ add_attack a c # post) =
      get_full_card_details cid (pre @ c # post)) \<and>
   ((\<forall>e\<in>set es. card_id (snd e) \<noteq> ident c) \<longrightarrow>
      score_all (pre @ add_attack a c # post) ms texts es =
      score_all (pre @ c # post) ms texts es)"
proof -
  have "attack_check c texts =
     10 * int (length (filter (attack_matches texts) (case attacks c of None \<Rightarrow> [] | Some as \<Rightarrow> as)))"
    by (simp add: attack_check_def attack_loop_count split: option.splits)
  moreover have "attack_matches texts a =
     (attack_name_clean a \<noteq> [] \<and> (\<exists>t\<in>set texts. sublist (attack_name_clean a) t))"
    by (simp add: attack_matches_def list_ex_iff)
  moreover have "attack_matches texts a \<and> score_card c ms texts = Inr s \<longrightarrow>
      score_card (add_attack a c) ms texts = Inr (s + 10)"
  proof
    assume h: "attack_matches texts a \<and> score_card c ms texts = Inr s"
    then obtain s1 where s1: "number_check c ms = Inr s1"
      and s: "s = s1 + name_check c texts + attack_check c texts"
      by (auto simp: score_card_Inr)
    have "number_loop (add_attack a c) ms = number_loop c ms"
      by (induction ms) (simp_all add: add_attack_def number_matches_def set_total_def)
    then have n: "number_check (add_attack a c) ms = Inr s1"
      using s1 by (simp add: number_check_loop)
    have nm: "name_check (add_attack a c) texts = name_check c texts"
      by (simp add: name_check_def card_name_clean_def add_attack_def)
    have "attack_check (add_attack a c) texts = attack_check c texts + 10"
      using h by (simp add: attack_check_def add_attack_def attack_loop_append split: option.splits)
    with n nm s show "score_card (add_attack a c) ms texts = Inr (s + 10)"
      by (simp add: score_card_def)
  qed
  moreover have "cid \<noteq> ident c \<longrightarrow>
      get_full_card_details cid (pre @ add_attack a c # post) =
      get_full_card_details cid (pre @ c # post)"
  proof
    assume "cid \<noteq> ident c"
    then show "get_full_card_details cid (pre @ add_attack a c # post) =
               get_full_card_details cid (pre @ c # post)"
      by (rule get_full_card_details_other) (simp add: add_attack_def)
  qed
  moreover have "(\<forall>e\<in>set es. card_id (snd e) \<noteq> ident c) \<longrightarrow>
      score_all (pre @ add_attack a c # post) ms texts es =
      score_all (pre @ c # post) ms texts es"
  proof
    assume "\<forall>e\<in>set es. card_id (snd e) \<noteq> ident c"
    then show "score_all (pre @ add_attack a c # post) ms texts es =
               score_all (pre @ c # post) ms texts es"
      by (rule score_all_other) (simp add: add_attack_def)
  qed
  ultimately show ?thesis by blast
qed

lemma clean_thunder: "clean_text ''Thunder Shock'' = ''thundershock''"
  by (simp add: clean_text_def isalnum_def islower_def isupper_def isdigit_def lower_def)

theorem attack_bonus_witness:
  "score_card (add_attack \<lparr>attack_name = Some ''Thunder Shock''\<rparr>
                 \<lparr>ident = ''sv1-49'', name = Some ''Pikachu'', number = PyStr ''049'',
                  set_field = None, attacks = None\<rparr>) [] [''thundershock20'', ''pikachu'']
     = Inr 30"
proof -
  let ?a = "\<lparr>attack_name = Some ''Thunder Shock''\<rparr>"
  let ?c = "\<lparr>ident = ''sv1-49'', name = Some ''Pikachu'', number = PyStr ''049'',
             set_field = None, attacks = None\<rparr>"
  let ?texts = "[''thundershock20'', ''pikachu'']"
  have m: "attack_matches ?texts ?a"
    by (simp add: attack_matches_def attack_name_clean_def clean_thunder sublist_code)
  have s: "score_card ?c [] ?texts = Inr 20"
    by (simp add: score_card_def number_check_def name_check_def card_name_clean_def
          clean_pikachu name_qualifies_def attack_check_def sublist_code)
  from attack_bonus[where c = ?c and texts = ?texts and a = ?a and ms = "[]" and s = 20] m s
  show ?thesis by simp
qed

section \<open>The sweep and the answer\<close>

lemma score_all_positive:
  "score_all cs ms ts es = Inr cands \<Longrightarrow> k \<in> set cands \<Longrightarrow> 0 < score k"
proof (induction es arbitrary: cands)
  case Nil
  then show ?case by simp
next
  case (Cons e es)
  obtain i m where e: "e = (i, m)" by (cases e)
  show ?case
  proof (cases "get_full_card_details (card_id m) cs")
    case None
    with Cons e show ?thesis by simp
  next
    case (Some c)
    with Cons.prems e obtain s rest where
      s: "score_card c ms ts = Inr s" and rest: "score_all cs ms ts es = Inr rest" and
      cands: "cands = (if 0 < s then \<lparr>score = s, index = i, meta = m\<rparr> # rest else rest)"
      by (auto split: sum.splits)
    from Cons.prems(2) cands consider "k = \<lparr>score = s, index = i, meta = m\<rparr>" "0 < s" | "k \<in> set rest"
      by (auto split: if_splits)
    then show ?thesis
    proof cases
      case 1
      then show ?thesis by simp
    next
      case 2
      with Cons.IH rest show ?thesis by blast
    qed
  qed
qed

lemma score_all_none:
  "(\<And>i m c. (i, m) \<in> set es \<Longrightarrow> get_full_card_details (card_id m) cs = Some c \<Longrightarrow>
       score_card c ms ts = Inr 0) \<Longrightarrow>
   score_all cs ms ts es = Inr []"
proof (induction es)
  case Nil
  then show ?case by simp
next
  case (Cons e es)
  obtain i m where e: "e = (i, m)" by (cases e)
  have rest: "score_all cs ms ts es = Inr []"
    using Cons.prems by (intro Cons.IH) auto
  show ?case
  proof (cases "get_full_card_details (card_id m) cs")
    case None
    with rest e show ?thesis by simp
  next
    case (Some c)
    then have "score_card c ms ts = Inr 0"
      using Cons.prems[of i m c] e by simp
    with Some rest e show ?thesis by simp
  qed
qed

lemma in_set_enumerate_snd: "(i, m) \<in> set (enumerate n xs) \<Longrightarrow> m \<in> set xs"
  by (auto simp: in_set_enumerate_eq)

lemma scan_card_sweep_error:
  "score_all all_cards (card_number_matches (join_space ocr)) (detected_texts ocr)
     (enumerate 0 (metadata si)) = Inl e \<Longrightarrow>
   scan_card sim all_cards si ocr q = InternalError e"
  by (simp add: scan_card_def)

lemma scan_card_no_candidates:
  "score_all all_cards (card_number_matches (join_space ocr)) (detected_texts ocr)
     (enumerate 0 (metadata si)) = Inr [] \<Longrightarrow>
   scan_card sim all_cards si ocr q = NotFound"
  by (simp add: scan_card_def)

lemma scan_card_candidates:
  "score_all all_cards (card_number_matches (join_space ocr)) (detected_texts ocr)
     (enumerate 0 (metadata si)) = Inr card_scores \<Longrightarrow> card_scores \<noteq> [] \<Longrightarrow>
   scan_card sim all_cards si ocr q =
     (if length (best_candidates card_scores) = 1
      then respond (get_full_card_details (card_id (meta (best_candidates card_scores ! 0))) all_cards)
             (score (hd (sort_by_score card_scores))) ''Scoring''
      else (case q of
              None \<Rightarrow> NotFound
            | Some v \<Rightarrow>
                (case best_match_index sim si (best_candidates card_scores) v of
                   Inl e \<Rightarrow> InternalError e
                 | Inr j \<Rightarrow>
                     respond
                       (get_full_card_details (card_id (meta (best_candidates card_scores ! j))) all_cards)
                       (score (hd (sort_by_score card_scores))) ''Scoring with Image Tie-break'')))"
  by (simp add: scan_card_def Let_def respond_def split: option.splits)

text \<open>
  Claim C6.  Every candidate of the sweep has a score above zero (an entry of score 0
  is not a candidate), and when every card that the index refers to has score 0, the
  answer is "not found" (status 404), not an error.
\<close>

theorem no_candidates_not_found:
  "(score_all all_cards ms texts es = Inr card_scores \<longrightarrow> (\<forall>k\<in>set card_scores. 0 < score k)) \<and>
   ((\<forall>m\<in>set (metadata si). \<forall>c. get_full_card_details (card_id m) all_cards = Some c \<longrightarrow>
        score_card c (card_number_matches (join_space ocr)) (detected_texts ocr) = Inr 0) \<longrightarrow>
    scan_card sim all_cards si ocr q = NotFound)"
proof -
  have "score_all all_cards ms texts es = Inr card_scores \<longrightarrow> (\<forall>k\<in>set card_scores. 0 < score k)"
    using score_all_positive by blast
  moreover have "scan_card sim all_cards si ocr q = NotFound"
    if h: "\<forall>m\<in>set (metadata si). \<forall>c. get_full_card_details (card_id m) all_cards = Some c \<longrightarrow>
        score_card c (card_number_matches (join_space ocr)) (detected_texts ocr) = Inr 0"
  proof (rule scan_card_no_candidates, rule score_all_none)
    fix i m c
    assume a: "(i, m) \<in> set (enumerate 0 (metadata si))"
      and b: "get_full_card_details (card_id m) all_cards = Some c"
    from a have "m \<in> set (metadata si)" by (rule in_set_enumerate_snd)
    with h b show "score_card c (card_number_matches (join_space ocr)) (detected_texts ocr) = Inr 0"
      by simp
  qed
  ultimately show ?thesis by blast
qed

text \<open>
  Claim C3.  When the sweep ends with more than one candidate at the top score and
  the embedding of the query image fails, the answer is "not found": none of the tied
  candidates is chosen.
\<close>

theorem embedding_failure_not_found:
  assumes "score_all all_cards (card_number_matches (join_space ocr)) (detected_texts ocr)
             (enumerate 0 (metadata si)) = Inr card_scores"
    and "1 < length (best_candidates card_scores)"
  shows "scan_card sim all_cards si ocr None = NotFound"
proof (cases "card_scores = []")
  case True
  with assms(1) show ?thesis by (simp add: scan_card_no_candidates)
next
  case False
  from scan_card_candidates[OF assms(1) False, where q = None] assms(2)
  show ?thesis by simp
qed

section \<open>Scans of the example catalog\<close>

lemma clean_text_simps:
  "clean_text [] = []"
  "clean_text (c # cs) = (if isalnum c then lower c # clean_text cs else clean_text cs)"
  by (simp_all add: clean_text_def)

lemmas char_class_defs = isalnum_def islower_def isupper_def isdigit_def isspace_def lower_def

lemma ex_texts: "detected_texts [''Pikachu''] = [''pikachu'']"
  by (simp add: detected_texts_def clean_text_simps char_class_defs)

lemma ex_numbers: "card_number_matches (join_space [''Pikachu'']) = []"
  by (simp add: card_number_matches_def card_number_re_def char_class_defs)

lemma ex_score_a: "score_card pikachu_a [] [''pikachu''] = Inr 20"
  by (simp add: score_card_def number_check_def name_check_def card_name_clean_def pikachu_a_def
        clean_text_simps char_class_defs name_qualifies_def attack_check_def attack_matches_def
        attack_name_clean_def sublist_code)

lemma ex_score_b: "score_card pikachu_b [] [''pikachu''] = Inr 20"
  by (simp add: score_card_def number_check_def name_check_def card_name_clean_def pikachu_b_def
        clean_text_simps char_class_defs name_qualifies_def attack_check_def sublist_code)

lemma ex_lookup:
  "get_full_card_details ''sv1-49'' example_cards = Some pikachu_a"
  "get_full_card_details ''sv2-12'' example_cards = Some pikachu_b"
  by (simp_all add: get_full_card_details_def example_cards_def pikachu_a_def pikachu_b_def)

lemma ex_sweep:
  "score_all example_cards [] [''pikachu''] (enumerate 0 (metadata example_index)) =
     Inr [cand_a, cand_b]"
  by (simp add: example_index_def enumerate_eq_zip upt_rec ex_lookup ex_score_a ex_score_b
        cand_a_def cand_b_def)

theorem embedding_failure_not_found_witness:
  "scan_card similarity64 example_cards example_index [''Pikachu''] None = NotFound"
proof -
  have a: "score_all example_cards (card_number_matches (join_space [''Pikachu'']))
             (detected_texts [''Pikachu'']) (enumerate 0 (metadata example_index)) =
           Inr [cand_a, cand_b]"
    by (simp only: ex_texts ex_numbers ex_sweep)
  show ?thesis
    by (rule embedding_failure_not_found[OF a]) (simp add: best_candidates_def sort_by_score_def cand_a_def cand_b_def)
qed


lemma ex_zz_texts: "detected_texts [''zzzz''] = [''zzzz'']"
  by (simp add: detected_texts_def clean_text_simps char_class_defs)

lemma ex_zz_numbers: "card_number_matches ''zzzz'' = []"
  by (simp add: card_number_matches_def card_number_re_def char_class_defs)

lemma ex_zz_score_a: "score_card pikachu_a [] [''zzzz''] = Inr 0"
  by (simp add: score_card_def number_check_def name_check_def card_name_clean_def pikachu_a_def
        clean_text_simps char_class_defs name_qualifies_def attack_check_def attack_matches_def
        attack_name_clean_def sublist_code)

lemma ex_zz_score_b: "score_card pikachu_b [] [''zzzz''] = Inr 0"
  by (simp add: score_card_def number_check_def name_check_def card_name_clean_def pikachu_b_def
        clean_text_simps char_class_defs name_qualifies_def attack_check_def sublist_code)

theorem no_candidates_not_found_witness:
  "scan_card similarity64 example_cards example_index [''zzzz''] None = NotFound"
proof -
  have "\<forall>m\<in>set (metadata example_index). \<forall>c.
          get_full_card_details (card_id m) example_cards = Some c \<longrightarrow>
          score_card c (card_number_matches (join_space [''zzzz''])) (detected_texts [''zzzz'']) = Inr 0"
    by (simp add: example_index_def ex_lookup ex_zz_texts ex_zz_numbers ex_zz_score_a ex_zz_score_b)
  with no_candidates_not_found[of example_cards "[]" "[]" "[]" "[]" example_index "[''zzzz'']" similarity64 None]
  show ?thesis by simp
qed

section \<open>The best candidates and the largest similarity\<close>

lemma argmax_loop_first_max:
  assumes "length pre = i" "bi < i" "(pre @ xs) ! bi = b"
    and "\<forall>k<i. (pre @ xs) ! k \<le> b" and "\<forall>k<bi. (pre @ xs) ! k < b"
  shows "is_first_max (pre @ xs) (argmax_loop bi (Some b) i (map Some xs))"
  using assms
proof (induction xs arbitrary: pre i bi b)
  case Nil
  then show ?case by (simp add: is_first_max_def)
next
  case (Cons x xs)
  let ?L = "pre @ x # xs"
  have Li: "?L ! i = x" using Cons.prems(1) by (simp add: nth_append)
  have L: "(pre @ [x]) @ xs = ?L" by simp
  show ?case
  proof (cases "x \<le> b")
    case True
    have "is_first_max ((pre @ [x]) @ xs) (argmax_loop bi (Some b) (Suc i) (map Some xs))"
    proof (rule Cons.IH)
      show "length (pre @ [x]) = Suc i" using Cons.prems(1) by simp
      show "bi < Suc i" using Cons.prems(2) by simp
      show "((pre @ [x]) @ xs) ! bi = b" using Cons.prems(3) by simp
      show "\<forall>k<Suc i. ((pre @ [x]) @ xs) ! k \<le> b"
        using Cons.prems(4) Li True by (auto simp: less_Suc_eq)
      show "\<forall>k<bi. ((pre @ [x]) @ xs) ! k < b" using Cons.prems(5) by simp
    qed
    with True show ?thesis by simp
  next
    case False
    have "is_first_max ((pre @ [x]) @ xs) (argmax_loop i (Some x) (Suc i) (map Some xs))"
    proof (rule Cons.IH)
      show "length (pre @ [x]) = Suc i" using Cons.prems(1) by simp
      show "i < Suc i" by simp
      show "((pre @ [x]) @ xs) ! i = x" using Li by simp
      show "\<forall>k<Suc i. ((pre @ [x]) @ xs) ! k \<le> x"
      proof (intro allI impI)
        fix k assume "k < Suc i"
        then consider "k < i" | "k = i" by linarith
        then show "((pre @ [x]) @ xs) ! k \<le> x"
        proof cases
          case 1
          with Cons.prems(4) have "?L ! k \<le> b" by simp
          with False show ?thesis by simp
        next
          case 2
          with Li show ?thesis by simp
        qed
      qed
      show "\<forall>k<i. ((pre @ [x]) @ xs) ! k < x"
      proof (intro allI impI)
        fix k assume "k < i"
        with Cons.prems(4) have "?L ! k \<le> b" by simp
        with False show "((pre @ [x]) @ xs) ! k < x" by simp
      qed
    qed
    with False show ?thesis by simp
  qed
qed

lemma np_argmax_first_max:
  assumes "xs \<noteq> []"
  shows "\<exists>j. np_argmax (map Some xs) = Inr j \<and> is_first_max xs j"
proof -
  from assms obtain x rest where xs: "xs = x # rest" by (cases xs) auto
  have "is_first_max ([x] @ rest) (argmax_loop 0 (Some x) 1 (map Some rest))"
    by (rule argmax_loop_first_max) simp_all
  then show ?thesis by (simp add: xs np_argmax_def)
qed

lemma is_first_max_unique: "is_first_max xs i \<Longrightarrow> is_first_max xs j \<Longrightarrow> i = j"
  unfolding is_first_max_def by (metis linorder_neqE_nat not_le)

lemma similarities_numbers:
  assumes "\<forall>v\<in>set vs. length v = length q" and "map (sim q) vs = map Some xs"
  shows "similarities sim q vs = Inr (map Some xs)"
proof -
  have "list_all (\<lambda>v. length v = length q) vs"
    using assms(1) by (simp add: list_all_iff)
  with assms(2) show ?thesis by (simp add: similarities_def)
qed

lemma tiebreaker_embeddings_map:
  "\<forall>c\<in>set best. index c < length embs \<Longrightarrow>
   tiebreaker_embeddings embs best = Inr (map (\<lambda>c. embs ! index c) best)"
  by (induction best) simp_all

lemma sort_by_score_hd:
  assumes "cands \<noteq> []"
  shows "hd (sort_by_score cands) \<in> set cands"
    and "\<forall>c\<in>set cands. score c \<le> score (hd (sort_by_score cands))"
proof -
  let ?f = "\<lambda>c. - score c"
  let ?s = "sort_key ?f cands"
  from assms have ne: "?s \<noteq> []" by (metis length_0_conv length_sort)
  then obtain y ys where s: "?s = y # ys" by (cases ?s) auto
  have "hd ?s \<in> set ?s" using ne by (rule hd_in_set)
  then have "hd ?s \<in> set cands" by (simp only: set_sort)
  then show "hd (sort_by_score cands) \<in> set cands"
    by (simp only: sort_by_score_def)
  have "sorted (map ?f ?s)" by simp
  then have "\<forall>z\<in>set ys. ?f y \<le> ?f z" by (simp add: s)
  then have all: "\<forall>z\<in>set (y # ys). score z \<le> score y" by auto
  have "set cands = set (y # ys)" using s by (metis set_sort)
  with all have "\<forall>c\<in>set cands. score c \<le> score y" by simp
  moreover have "hd (sort_by_score cands) = y" by (simp add: sort_by_score_def s)
  ultimately show "\<forall>c\<in>set cands. score c \<le> score (hd (sort_by_score cands))"
    by simp
qed

lemma best_candidates_filter:
  "best_candidates cands =
     filter (\<lambda>c. score c = score (hd (sort_by_score cands))) cands"
proof -
  let ?f = "\<lambda>c. - score c"
  let ?top = "score (hd (sort_by_score cands))"
  have "filter (\<lambda>c. ?f c = - ?top) (sort_key ?f cands) = filter (\<lambda>c. ?f c = - ?top) cands"
    by (rule sort_key_stable)
  then show ?thesis
    by (simp add: best_candidates_def sort_by_score_def Let_def)
qed

lemma best_candidates_nonempty: "cands \<noteq> [] \<Longrightarrow> best_candidates cands \<noteq> []"
  using sort_by_score_hd(1)[of cands]
  by (auto simp: best_candidates_filter filter_empty_conv)

lemma best_candidates_score:
  "c \<in> set (best_candidates cands) \<Longrightarrow>
   c \<in> set cands \<and> score c = score (hd (sort_by_score cands))"
  by (simp add: best_candidates_filter)

section \<open>An index entry without a catalog record\<close>

lemma score_all_append:
  "score_all cs ms ts (xs @ ys) =
     (case score_all cs ms ts xs of
        Inl e \<Rightarrow> Inl e
      | Inr a \<Rightarrow> (case score_all cs ms ts ys of Inl e \<Rightarrow> Inl e | Inr b \<Rightarrow> Inr (a @ b)))"
proof (induction xs)
  case Nil
  show ?case by (simp split: sum.splits)
next
  case (Cons x xs)
  obtain i m where x: "x = (i, m)" by (cases x)
  show ?case
    unfolding x using Cons.IH
    by (simp split: sum.splits option.splits)
qed

lemma score_all_skip:
  "get_full_card_details (card_id m) cs = None \<Longrightarrow>
   score_all cs ms ts (xs @ (i, m) # ys) = score_all cs ms ts (xs @ ys)"
  by (simp add: score_all_append split: sum.splits)

lemma score_all_apfst:
  "score_all cs ms ts (map (apfst f) es) =
     (case score_all cs ms ts es of
        Inl e \<Rightarrow> Inl e
      | Inr cands \<Rightarrow> Inr (map (index_update f) cands))"
proof (induction es)
  case Nil
  show ?case by simp
next
  case (Cons x es)
  obtain i m where x: "x = (i, m)" by (cases x)
  show ?case
    unfolding x using Cons.IH
    by (simp split: sum.splits option.splits)
qed

lemma score_all_member:
  "score_all cs ms ts es = Inr cands \<Longrightarrow> k \<in> set cands \<Longrightarrow>
   (index k, meta k) \<in> set es \<and>
   (\<exists>c. get_full_card_details (card_id (meta k)) cs = Some c \<and>
        score_card c ms ts = Inr (score k))"
proof (induction es arbitrary: cands)
  case Nil
  then show ?case by simp
next
  case (Cons e es)
  obtain i m where e: "e = (i, m)" by (cases e)
  show ?case
  proof (cases "get_full_card_details (card_id m) cs")
    case None
    with Cons e show ?thesis by simp
  next
    case (Some c)
    with Cons.prems e obtain s rest where
      s: "score_card c ms ts = Inr s" and rest: "score_all cs ms ts es = Inr rest" and
      cands: "cands = (if 0 < s then \<lparr>score = s, index = i, meta = m\<rparr> # rest else rest)"
      by (auto split: sum.splits)
    from Cons.prems(2) cands consider "k = \<lparr>score = s, index = i, meta = m\<rparr>" | "k \<in> set rest"
      by (auto split: if_splits)
    then show ?thesis
    proof cases
      case 1
      with Some s e show ?thesis by simp
    next
      case 2
      with Cons.IH[OF rest] e show ?thesis by simp
    qed
  qed
qed

lemma enumerate_remove:
  assumes "k < length xs"
  shows "enumerate 0 xs =
           enumerate 0 (take k xs) @ (k, xs ! k) # enumerate (Suc k) (drop (Suc k) xs)"
    and "map (apfst (\<lambda>i. if k \<le> i then Suc i else i))
           (enumerate 0 (take k xs @ drop (Suc k) xs)) =
         enumerate 0 (take k xs) @ enumerate (Suc k) (drop (Suc k) xs)"
proof -
  have "xs = take k xs @ xs ! k # drop (Suc k) xs"
    using assms by (simp add: id_take_nth_drop)
  then have "enumerate 0 xs = enumerate 0 (take k xs @ xs ! k # drop (Suc k) xs)"
    by simp
  also have "\<dots> = enumerate 0 (take k xs) @ (k, xs ! k) # enumerate (Suc k) (drop (Suc k) xs)"
    using assms by (simp add: enumerate_append_eq min_def)
  finally show "enumerate 0 xs =
           enumerate 0 (take k xs) @ (k, xs ! k) # enumerate (Suc k) (drop (Suc k) xs)" .
  let ?up = "\<lambda>i. if k \<le> i then Suc i else i"
  have a: "map (apfst ?up) (enumerate 0 (take k xs)) = enumerate 0 (take k xs)"
  proof -
    have "map (apfst ?up) (enumerate 0 (take k xs)) = map (\<lambda>p. p) (enumerate 0 (take k xs))"
      by (rule map_cong) (auto simp: in_set_enumerate_eq)
    then show ?thesis by simp
  qed
  have b: "map (apfst ?up) (enumerate k (drop (Suc k) xs)) = enumerate (Suc k) (drop (Suc k) xs)"
  proof -
    have "map (apfst ?up) (enumerate k (drop (Suc k) xs)) =
          map (apfst Suc) (enumerate k (drop (Suc k) xs))"
      by (rule map_cong) (auto simp: in_set_enumerate_eq)
    then show ?thesis by (simp add: enumerate_Suc_eq)
  qed
  show "map (apfst ?up) (enumerate 0 (take k xs @ drop (Suc k) xs)) =
         enumerate 0 (take k xs) @ enumerate (Suc k) (drop (Suc k) xs)"
    using assms by (simp add: enumerate_append_eq min_def a b)
qed

lemma score_all_remove:
  assumes "k < length xs" and "get_full_card_details (card_id (xs ! k)) cs = None"
  shows "score_all cs ms ts (enumerate 0 xs) =
           (case score_all cs ms ts (enumerate 0 (take k xs @ drop (Suc k) xs)) of
              Inl e \<Rightarrow> Inl e
            | Inr cands \<Rightarrow> Inr (map (index_update (\<lambda>i. if k \<le> i then Suc i else i)) cands))"
proof -
  have "score_all cs ms ts (enumerate 0 xs) =
        score_all cs ms ts (enumerate 0 (take k xs) @ enumerate (Suc k) (drop (Suc k) xs))"
    by (simp only: enumerate_remove(1)[OF assms(1)] score_all_skip[OF assms(2)])
  also have "\<dots> = score_all cs ms ts
      (map (apfst (\<lambda>i. if k \<le> i then Suc i else i)) (enumerate 0 (take k xs @ drop (Suc k) xs)))"
    by (simp only: enumerate_remove(2)[OF assms(1)])
  finally show ?thesis by (simp only: score_all_apfst)
qed

lemma insort_key_map_inv:
  "(\<And>x. g (h x) = g x) \<Longrightarrow> insort_key g (h x) (map h ys) = map h (insort_key g x ys)"
  by (induction ys) simp_all

lemma sort_key_map_inv:
  "(\<And>x. g (h x) = g x) \<Longrightarrow> sort_key g (map h xs) = map h (sort_key g xs)"
  by (induction xs) (simp_all add: insort_key_map_inv)

lemma sort_by_score_reindex:
  "sort_by_score (map (index_update f) cands) = map (index_update f) (sort_by_score cands)"
  unfolding sort_by_score_def by (rule sort_key_map_inv) simp

lemma top_score_reindex:
  "cands \<noteq> [] \<Longrightarrow>
   score (hd (sort_by_score (map (index_update f) cands))) = score (hd (sort_by_score cands))"
proof -
  assume "cands \<noteq> []"
  then have "sort_by_score cands \<noteq> []"
    by (metis length_0_conv length_sort sort_by_score_def)
  then show ?thesis by (simp add: sort_by_score_reindex hd_map)
qed

lemma best_candidates_reindex:
  "cands \<noteq> [] \<Longrightarrow>
   best_candidates (map (index_update f) cands) = map (index_update f) (best_candidates cands)"
  by (simp add: best_candidates_filter top_score_reindex filter_map comp_def)

lemma argmax_loop_bound: "bi < i \<Longrightarrow> argmax_loop bi bv i xs < i + length xs"
proof (induction bi bv i xs rule: argmax_loop.induct)
  case (1 bi bv i)
  then show ?case by simp
next
  case (2 bi i x xs)
  then show ?case by simp
next
  case (3 bi b i xs)
  then show ?case by simp
next
  case (4 bi b i v xs)
  then show ?case by (auto split: if_splits)
qed

lemma np_argmax_bound: "np_argmax xs = Inr j \<Longrightarrow> j < length xs"
proof (cases xs)
  case Nil
  assume "np_argmax xs = Inr j"
  with Nil show ?thesis by (simp add: np_argmax_def)
next
  case (Cons x rest)
  assume "np_argmax xs = Inr j"
  with Cons have "j = argmax_loop 0 x 1 rest" by (simp add: np_argmax_def)
  with argmax_loop_bound[of 0 1 x rest] Cons show ?thesis by simp
qed

lemma tiebreaker_embeddings_length:
  "tiebreaker_embeddings embs best = Inr vs \<Longrightarrow> length vs = length best"
  by (induction best arbitrary: vs) (auto split: if_splits sum.splits)

lemma best_match_index_bound:
  assumes "best_match_index sim si best q = Inr j"
  shows "j < length best"
proof -
  from assms obtain vs sims where
    vs: "tiebreaker_embeddings (embeddings si) best = Inr vs" and
    sims: "similarities sim q vs = Inr sims" and j: "np_argmax sims = Inr j"
    by (auto simp: best_match_index_def split: sum.splits)
  from sims have "length sims = length vs"
    by (auto simp: similarities_def split: if_splits)
  with np_argmax_bound[OF j] tiebreaker_embeddings_length[OF vs] show ?thesis by simp
qed

lemma tiebreaker_embeddings_remove:
  assumes "k < length embs"
  shows "tiebreaker_embeddings embs (map (index_update (\<lambda>i. if k \<le> i then Suc i else i)) best) =
         tiebreaker_embeddings (take k embs @ drop (Suc k) embs) best"
proof -
  define E' where "E' = take k embs @ drop (Suc k) embs"
  have len: "length E' = length embs - 1" using assms by (simp add: E'_def)
  have low: "E' ! i = embs ! i" if "i < k" for i
    using that assms by (simp add: E'_def nth_append)
  have high: "E' ! i = embs ! Suc i" if "k \<le> i" "i < length E'" for i
    using that assms by (simp add: E'_def nth_append min_def)
  have "tiebreaker_embeddings embs (map (index_update (\<lambda>i. if k \<le> i then Suc i else i)) best) =
        tiebreaker_embeddings E' best"
  proof (induction best)
    case Nil
    show ?case by simp
  next
    case (Cons c best)
    show ?case
    proof (cases "k \<le> index c")
      case True
      have a: "(Suc (index c) < length embs) = (index c < length E')"
        using assms len by auto
      show ?thesis
      proof (cases "index c < length E'")
        case inb: True
        with a True high[OF True inb] Cons.IH show ?thesis by (simp split: sum.splits)
      next
        case False
        with a True show ?thesis by simp
      qed
    next
      case False
      then have lt: "index c < k" by simp
      have "index c < length embs" "index c < length E'"
        using lt assms len by auto
      with False low[OF lt] Cons.IH show ?thesis by (simp split: sum.splits)
    qed
  qed
  then show ?thesis by (simp only: E'_def)
qed

lemma best_match_index_remove:
  assumes "k < length (embeddings si)"
  shows "best_match_index sim si (map (index_update (\<lambda>i. if k \<le> i then Suc i else i)) best) q =
         best_match_index sim (remove_entry k si) best q"
  by (simp add: best_match_index_def remove_entry_def tiebreaker_embeddings_remove[OF assms])

lemma scan_card_remove_entry:
  assumes k: "k < length (metadata si)" "k < length (embeddings si)"
    and missing: "get_full_card_details (card_id (metadata si ! k)) all_cards = None"
  shows "scan_card sim all_cards (remove_entry k si) ocr q = scan_card sim all_cards si ocr q"
proof -
  let ?ms = "card_number_matches (join_space ocr)"
  let ?ts = "detected_texts ocr"
  let ?U = "index_update (\<lambda>i. if k \<le> i then Suc i else i) :: candidate \<Rightarrow> candidate"
  let ?si = "remove_entry k si"
  have meta': "metadata ?si = take k (metadata si) @ drop (Suc k) (metadata si)"
    by (simp add: remove_entry_def)
  have sweep: "score_all all_cards ?ms ?ts (enumerate 0 (metadata si)) =
      (case score_all all_cards ?ms ?ts (enumerate 0 (metadata ?si)) of
         Inl e \<Rightarrow> Inl e | Inr cands \<Rightarrow> Inr (map ?U cands))"
    unfolding meta' by (rule score_all_remove[OF k(1) missing])
  show ?thesis
  proof (cases "score_all all_cards ?ms ?ts (enumerate 0 (metadata ?si))")
    case (Inl e)
    with sweep have "score_all all_cards ?ms ?ts (enumerate 0 (metadata si)) = Inl e" by simp
    with Inl show ?thesis by (simp add: scan_card_sweep_error)
  next
    case (Inr cands)
    with sweep have S: "score_all all_cards ?ms ?ts (enumerate 0 (metadata si)) = Inr (map ?U cands)"
      by simp
    show ?thesis
    proof (cases "cands = []")
      case True
      with Inr S show ?thesis by (simp add: scan_card_no_candidates)
    next
      case False
      then have ne: "map ?U cands \<noteq> []" by simp
      let ?b = "best_candidates cands"
      have best: "best_candidates (map ?U cands) = map ?U ?b"
        using False by (rule best_candidates_reindex)
      have top: "score (hd (sort_by_score (map ?U cands))) = score (hd (sort_by_score cands))"
        using False by (rule top_score_reindex)
      have bne: "?b \<noteq> []" using False by (rule best_candidates_nonempty)
      have cid: "card_id (meta (map ?U ?b ! j)) = card_id (meta (?b ! j))" if "j < length ?b" for j
        using that by simp
      have bmi: "best_match_index sim si (map ?U ?b) v = best_match_index sim ?si ?b v" for v
        by (rule best_match_index_remove[OF k(2)])
      show ?thesis
      proof (cases "length ?b = 1")
        case True
        then have "0 < length ?b" by simp
        from cid[OF this] True show ?thesis
          by (simp add: scan_card_candidates[OF Inr False] scan_card_candidates[OF S ne] best top)
      next
        case nt: False
        show ?thesis
        proof (cases q)
          case None
          with nt show ?thesis
            by (simp add: scan_card_candidates[OF Inr False] scan_card_candidates[OF S ne] best top)
        next
          case (Some v)
          show ?thesis
          proof (cases "best_match_index sim ?si ?b v")
            case (Inl e)
            with nt Some show ?thesis
              by (simp add: scan_card_candidates[OF Inr False] scan_card_candidates[OF S ne]
                    best top bmi)
          next
            case (Inr j)
            from best_match_index_bound[OF Inr] have "j < length ?b" .
            from cid[OF this] nt Some Inr show ?thesis
              by (simp add: scan_card_candidates[OF \<open>score_all all_cards ?ms ?ts (enumerate 0 (metadata ?si)) = Inr cands\<close> False]
                    scan_card_candidates[OF S ne] best top bmi)
          qed
        qed
      qed
    qed
  qed
qed

text \<open>
  Claim C5.  An index entry whose catalog id is not in the catalog is passed over by
  the sweep without an error, it is never a candidate, and the answer of the scan is
  the answer on the index without that entry.  Removing the entry removes its
  metadata and its vector, so the entry is taken to have its vector in the index.
\<close>

theorem missing_entry_skipped:
  assumes "k < length (metadata si)" and "k < length (embeddings si)"
    and "get_full_card_details (card_id (metadata si ! k)) all_cards = None"
  shows "scan_card sim all_cards (remove_entry k si) ocr q = scan_card sim all_cards si ocr q \<and>
         score_all all_cards ms ts ((k, metadata si ! k) # rest) = score_all all_cards ms ts rest \<and>
         (\<forall>cands. score_all all_cards ms ts (enumerate 0 (metadata si)) = Inr cands \<longrightarrow>
                  (\<forall>c\<in>set cands. index c \<noteq> k))"
proof (intro conjI allI impI ballI)
  show "scan_card sim all_cards (remove_entry k si) ocr q = scan_card sim all_cards si ocr q"
    using assms by (rule scan_card_remove_entry)
  show "score_all all_cards ms ts ((k, metadata si ! k) # rest) = score_all all_cards ms ts rest"
    using assms(3) by simp
  fix cands c
  assume sw: "score_all all_cards ms ts (enumerate 0 (metadata si)) = Inr cands"
    and c: "c \<in> set cands"
  from score_all_member[OF sw c] obtain card where
    m: "(index c, meta c) \<in> set (enumerate 0 (metadata si))" and
    r: "get_full_card_details (card_id (meta c)) all_cards = Some card"
    by blast
  from m have "metadata si ! index c = meta c"
    by (simp add: in_set_enumerate_eq)
  with r assms(3) show "index c \<noteq> k" by auto
qed

theorem missing_entry_skipped_witness:
  "scan_card similarity64 example_cards example_index [''Pikachu''] None =
   scan_card similarity64 example_cards drifted_index [''Pikachu''] None"
proof -
  have a: "0 < length (metadata drifted_index)" "0 < length (embeddings drifted_index)"
    by (simp_all add: drifted_index_def)
  have b: "get_full_card_details (card_id (metadata drifted_index ! 0)) example_cards = None"
    by (simp add: drifted_index_def get_full_card_details_def example_cards_def
          pikachu_a_def pikachu_b_def)
  have c: "remove_entry 0 drifted_index = example_index"
    by (simp add: remove_entry_def drifted_index_def example_index_def)
  from missing_entry_skipped[OF a b, of similarity64 "[''Pikachu'']" None "[]" "[]" "[]"] c
  show ?thesis by simp
qed

section \<open>The direct win and the tie-break\<close>

lemma number_check_named:
  "name c = Some n \<Longrightarrow>
   number_check c ms = Inr (if \<exists>m\<in>set ms. number_matches c m then 100 else 0)"
  by (simp add: number_check_loop number_loop_named)

lemma number_check_first_match:
  "number_matches c m \<Longrightarrow> number_check c (pre @ m # post) = number_check c (pre @ [m])"
  unfolding number_check_loop by (induction pre) simp_all

lemma score_card_number_only:
  assumes "name c = Some n" "\<exists>m\<in>set ms. number_matches c m"
    and "name_check c texts = 0" "attack_check c texts = 0"
  shows "score_card c ms texts = Inr 100"
  using assms by (simp add: score_card_def number_check_named)

lemma scan_card_unique_best:
  assumes sweep: "score_all all_cards (card_number_matches (join_space ocr)) (detected_texts ocr)
             (enumerate 0 (metadata si)) = Inr card_scores"
    and one: "best_candidates card_scores = [k]"
  shows "\<exists>card. get_full_card_details (card_id (meta k)) all_cards = Some card \<and>
           score_card card (card_number_matches (join_space ocr)) (detected_texts ocr) = Inr (score k) \<and>
           scan_card sim all_cards si ocr q =
             (case name card of
                None \<Rightarrow> InternalError (KeyError ''name'')
              | Some _ \<Rightarrow> Match card (score k) ''Scoring'')"
proof -
  have ne: "card_scores \<noteq> []"
    using one by (auto simp: best_candidates_filter)
  have "k \<in> set (best_candidates card_scores)" using one by simp
  from best_candidates_score[OF this]
  have k: "k \<in> set card_scores" "score k = score (hd (sort_by_score card_scores))" by simp_all
  from score_all_member[OF sweep k(1)] obtain card where
    c: "get_full_card_details (card_id (meta k)) all_cards = Some card"
       "score_card card (card_number_matches (join_space ocr)) (detected_texts ocr) = Inr (score k)"
    by blast
  have "scan_card sim all_cards si ocr q = respond (Some card) (score k) ''Scoring''"
    using one c(1) k(2) by (simp add: scan_card_candidates[OF sweep ne])
  with c show ?thesis by (simp add: respond_def)
qed

text \<open>
  Claim C1 (the code departs from it).  A card whose record has no \<^verbatim>\<open>name\<close> key and
  whose number and printed total match an extracted fraction: the log line of the
  number check raises \<^verbatim>\<open>KeyError\<close>, and the scan answers with an internal error
  instead of choosing the card with score 100.  For the records that have a name,
  the number bonus and the direct win are \<open>number_check_named\<close>,
  \<open>number_check_first_match\<close>, \<open>score_card_number_only\<close> and \<open>scan_card_unique_best\<close>.
\<close>

theorem number_match_nameless_card:
  "scan_card similarity64 [\<lparr>ident = ''sv1-49'', name = None, number = PyStr ''49'',
               set_field = Some \<lparr>printedTotal = PyInt 182\<rparr>, attacks = None\<rparr>]
     \<lparr>metadata = [\<lparr>card_id = ''sv1-49'', meta_name = []\<rparr>], embeddings = [[1, 0]]\<rparr>
     [''49/'', ''182''] None = InternalError (KeyError ''name'')"
  by (simp add: scan_card_def detected_texts_def clean_text_simps char_class_defs
        card_number_matches_def card_number_re_def enumerate_eq_zip
        get_full_card_details_def score_card_def number_check_def number_matches_def
        set_total_def str_int_def str_nat.simps)

text \<open>
  Claim C2, as amended.  When more than one candidate has the top score, the query
  embedding has been computed, every tied candidate has a stored vector of the
  dimension of the query, and the similarities that the library computes for them are
  numbers, the scan chooses, among the tied candidates in the order of the index, the
  first one whose computed similarity is the largest; when the record of that card
  has a name, the answer is the match with method \<open>Scoring with Image Tie-break\<close> and
  the tied top score.
\<close>

theorem tie_break_resolution:
  assumes sweep: "score_all all_cards (card_number_matches (join_space ocr)) (detected_texts ocr)
             (enumerate 0 (metadata si)) = Inr card_scores"
    and tie: "1 < length (best_candidates card_scores)"
    and vecs: "\<forall>c\<in>set (best_candidates card_scores).
                 index c < length (embeddings si) \<and> length (embeddings si ! index c) = length q"
    and nums: "map (\<lambda>c. sim q (embeddings si ! index c)) (best_candidates card_scores) =
               map Some sims"
  shows "\<exists>j card.
           is_first_max sims j \<and>
           get_full_card_details (card_id (meta (best_candidates card_scores ! j))) all_cards = Some card \<and>
           (name card \<noteq> None \<longrightarrow>
              scan_card sim all_cards si ocr (Some q) =
                Match card (score (best_candidates card_scores ! j)) ''Scoring with Image Tie-break'') \<and>
           best_candidates card_scores =
             filter (\<lambda>c. score c = score (best_candidates card_scores ! j)) card_scores \<and>
           (\<forall>c\<in>set card_scores. score c \<le> score (best_candidates card_scores ! j))"
proof -
  let ?best = "best_candidates card_scores"
  let ?top = "score (hd (sort_by_score card_scores))"
  let ?vs = "map (\<lambda>c. embeddings si ! index c) ?best"
  have bne: "?best \<noteq> []" using tie by auto
  then have ne: "card_scores \<noteq> []" by (auto simp: best_candidates_filter)
  have len_sims: "length sims = length ?best"
    using arg_cong[OF nums, of length] by simp
  have te: "tiebreaker_embeddings (embeddings si) ?best = Inr ?vs"
    using vecs by (intro tiebreaker_embeddings_map) simp
  have dims: "\<forall>v\<in>set ?vs. length v = length q" using vecs by simp
  have "map (sim q) ?vs = map Some sims" using nums by (simp add: comp_def)
  with dims have sm: "similarities sim q ?vs = Inr (map Some sims)"
    by (rule similarities_numbers)
  have "sims \<noteq> []" using bne len_sims by auto
  from np_argmax_first_max[OF this] obtain j where
    j: "np_argmax (map Some sims) = Inr j" and fm: "is_first_max sims j"
    by blast
  have bmi: "best_match_index sim si ?best q = Inr j"
    unfolding best_match_index_def by (simp only: te sm j sum.case)
  from fm have jl: "j < length ?best" by (simp add: is_first_max_def len_sims)
  then have jin: "?best ! j \<in> set ?best" by simp
  from best_candidates_score[OF jin]
  have kj: "?best ! j \<in> set card_scores" "score (?best ! j) = ?top" by simp_all
  from score_all_member[OF sweep kj(1)] obtain card where
    c: "get_full_card_details (card_id (meta (?best ! j))) all_cards = Some card"
    by blast
  have len: "length ?best \<noteq> 1" using tie by simp
  have scan: "scan_card sim all_cards si ocr (Some q) =
                respond (Some card) ?top ''Scoring with Image Tie-break''"
    using len by (simp add: scan_card_candidates[OF sweep ne] bmi c)
  have "name card \<noteq> None \<longrightarrow>
          scan_card sim all_cards si ocr (Some q) =
            Match card (score (?best ! j)) ''Scoring with Image Tie-break''"
    using scan kj(2) by (auto simp: respond_def)
  moreover have "?best = filter (\<lambda>c. score c = score (?best ! j)) card_scores"
    using kj(2) best_candidates_filter[of card_scores] by simp
  moreover have "\<forall>c\<in>set card_scores. score c \<le> score (?best ! j)"
    using sort_by_score_hd(2)[OF ne] kj(2) by simp
  ultimately show ?thesis using fm c by blast
qed

section \<open>Rounding, and the tie-break of the examples\<close>

lemma round_even_int: "round_even (of_int n) = n"
  by (simp add: round_even_def)

lemma round_even_near:
  assumes "\<bar>y - of_int m\<bar> < 1 / 2"
  shows "round_even y = m"
proof (cases "of_int m \<le> y")
  case True
  with assms have "\<lfloor>y\<rfloor> = m" by (intro floor_unique) auto
  with assms True show ?thesis by (simp add: round_even_def)
next
  case False
  with assms have f: "\<lfloor>y\<rfloor> = m - 1" by (intro floor_unique) auto
  from assms False have "1 / 2 < y - of_int (m - 1)" by simp
  with f show ?thesis by (simp add: round_even_def)
qed

lemma ulp_eval:
  assumes "2 powr of_int k \<le> \<bar>x\<bar>" and "\<bar>x\<bar> < 2 powr (of_int k + 1)" and "emin \<le> k"
  shows "ulp p emin x = 2 powr (of_int k - (of_nat p - 1))"
proof -
  have "0 < 2 powr (of_int k :: real)" by simp
  with assms(1) have pos: "0 < \<bar>x\<bar>" by linarith
  have "\<lfloor>log 2 \<bar>x\<bar>\<rfloor> = k"
    using assms(1,2) pos by (simp add: floor_log_eq_powr_iff)
  with assms(3) show ?thesis by (simp add: ulp_def max_def)
qed

text \<open>A number of at most \<open>p\<close> significant bits is its own rounding.\<close>

lemma round_binary_exact:
  assumes m: "\<bar>m\<bar> < 2 ^ p" and e: "emin - (int p - 1) \<le> e"
  shows "round_binary p emin (of_int m * 2 powr of_int e) = of_int m * 2 powr of_int e"
proof (cases "m = 0")
  case True
  then show ?thesis by (simp add: round_binary_def)
next
  case False
  let ?x = "of_int m * 2 powr of_int e :: real"
  let ?k = "\<lfloor>log 2 \<bar>?x\<bar>\<rfloor>"
  let ?g = "max ?k emin - (int p - 1)"
  have x0: "?x \<noteq> 0" using False by simp
  have pos: "0 < \<bar>?x\<bar>" using x0 by simp
  have "\<bar>?x\<bar> = \<bar>of_int m\<bar> * 2 powr of_int e" by (simp add: abs_mult)
  also have "\<dots> < 2 ^ p * 2 powr of_int e"
  proof -
    have "\<bar>of_int m :: real\<bar> < 2 ^ p"
      using m by (metis of_int_abs of_int_less_numeral_power_cancel_iff)
    then show ?thesis by simp
  qed
  also have "\<dots> = 2 powr (of_int (int p + e))"
    by (simp add: powr_add powr_realpow)
  finally have lt: "\<bar>?x\<bar> < 2 powr (of_int (int p + e))" .
  have "2 powr (of_int ?k) \<le> \<bar>?x\<bar>"
    using pos floor_log_eq_powr_iff[of "\<bar>?x\<bar>" 2 ?k] by simp
  with lt have "2 powr (of_int ?k) < (2 :: real) powr (of_int (int p + e))" by linarith
  then have "?k < int p + e" by simp
  with e have ge: "?g \<le> e" by simp
  have u: "ulp p emin ?x = 2 powr of_int ?g"
    by (simp add: ulp_def)
  have "?x / 2 powr of_int ?g = of_int m * 2 powr (of_int (e - ?g))"
    by (simp add: powr_diff)
  also have "\<dots> = of_int m * 2 ^ nat (e - ?g)"
    using ge by (simp add: powr_realpow[symmetric])
  also have "\<dots> = of_int (m * 2 ^ nat (e - ?g))" by simp
  finally have q: "?x / 2 powr of_int ?g = of_int (m * 2 ^ nat (e - ?g))" .
  have "round_binary p emin ?x = of_int (round_even (?x / ulp p emin ?x)) * ulp p emin ?x"
    using x0 by (simp add: round_binary_def)
  also have "\<dots> = (?x / 2 powr of_int ?g) * 2 powr of_int ?g"
    unfolding u by (simp only: q round_even_int)
  also have "\<dots> = ?x" by simp
  finally show ?thesis .
qed

text \<open>The rounding of a number is the number of \<open>p\<close> bits less than half a step away.\<close>

lemma round_binary_near:
  assumes "2 powr of_int k \<le> \<bar>x\<bar>" and "\<bar>x\<bar> < 2 powr (of_int k + 1)" and "emin \<le> k"
    and "\<bar>x / 2 powr (of_int k - (of_nat p - 1)) - of_int m\<bar> < 1 / 2"
  shows "round_binary p emin x = of_int m * 2 powr (of_int k - (of_nat p - 1))"
proof -
  have "0 < 2 powr (of_int k :: real)" by simp
  with assms(1) have "x \<noteq> 0" by auto
  moreover note ulp_eval[OF assms(1-3), of p] round_even_near[OF assms(4)]
  ultimately show ?thesis by (simp add: round_binary_def)
qed

lemma fl64_dyadic:
  assumes "\<bar>m\<bar> < 2 ^ 53" and "k \<le> 1074"
  shows "fl64 (of_int m / 2 ^ k) = of_int m / 2 ^ k"
proof -
  have "(of_int m / 2 ^ k :: real) = of_int m * 2 powr of_int (- int k)"
    by (simp add: powr_minus_divide powr_realpow)
  moreover have "round_binary 53 (- 1022) (of_int m * 2 powr of_int (- int k)) =
                 of_int m * 2 powr of_int (- int k)"
    using assms by (intro round_binary_exact) simp_all
  ultimately show ?thesis by (simp only: fl64_def)
qed


lemma fl64_0: "fl64 0 = 0"
  by (simp add: fl64_def round_binary_def)


lemma fl64_1: "fl64 1 = 1"
  using fl64_dyadic[of 1 0] by simp


lemma fl64_small: "fl64 (1 / 2 ^ 60) = 1 / 2 ^ 60"
  using fl64_dyadic[of 1 60] by simp

lemma fl64_absorb: "fl64 (1 + 1 / 2 ^ 60) = 1"
proof -
  have "round_binary 53 (- 1022) (1 + 1 / 2 ^ 60) =
        of_int (2 ^ 52) * 2 powr (of_int 0 - (of_nat 53 - 1))"
    by (rule round_binary_near) (simp_all add: powr_minus_divide)
  then show ?thesis by (simp add: fl64_def powr_minus_divide)
qed

lemma dot64_examples:
  "dot64 [0, 1] [1, 0] = 0" "dot64 [0, 1] [0, 1] = 1" "dot64 [1, 0] [1, 0] = 1"
  "dot64 [1, 0] close_vector = 1"
  by (simp_all add: dot64_def close_vector_def fl64_0 fl64_1)

lemma dot64_close: "dot64 close_vector close_vector = 1"
proof -
  have "(1 / 2 ^ 30) * (1 / 2 ^ 30) = (1 / 2 ^ 60 :: real)" by simp
  then have "dot64 close_vector close_vector = fl64 (1 + fl64 (1 / 2 ^ 60))"
    by (simp only: close_vector_def dot64_def dot64_loop.simps mult_1 add_0 fl64_1)
  then show ?thesis by (simp only: fl64_small fl64_absorb)
qed

lemma norm64_examples:
  "norm64 [0, 1] = 1" "norm64 [1, 0] = 1" "norm64 close_vector = 1"
  by (simp_all only: norm64_def dot64_examples dot64_close real_sqrt_one fl64_1)

lemma similarity64_examples:
  "similarity64 [0, 1] [1, 0] = Some 0"
  "similarity64 [0, 1] [0, 1] = Some 1"
  "similarity64 [1, 0] close_vector = Some 1"
  "similarity64 [1, 0] [1, 0] = Some 1"
  by (simp_all add: similarity64_def cdist_cosine64_def norm64_examples dot64_examples fl64_0 fl64_1)

lemma cosine_similarity_close:
  "cosine_similarity [1, 0] close_vector < cosine_similarity [1, 0] [1, 0]"
proof -
  have "1 < sqrt (1 + 1 / 2 ^ 60)" by simp
  then have "1 / sqrt (1 + 1 / 2 ^ 60) < 1" by simp
  then show ?thesis
    by (simp add: cosine_similarity_def norm2_def dot_def close_vector_def)
qed

lemma ex_sweep_full:
  "score_all example_cards (card_number_matches (join_space [''Pikachu'']))
     (detected_texts [''Pikachu'']) (enumerate 0 (metadata example_index)) =
   Inr [cand_a, cand_b]"
  by (simp only: ex_texts ex_numbers ex_sweep)

lemma close_sweep_full:
  "score_all example_cards (card_number_matches (join_space [''Pikachu'']))
     (detected_texts [''Pikachu'']) (enumerate 0 (metadata close_index)) =
   Inr [cand_a, cand_b]"
proof -
  have "metadata close_index = metadata example_index"
    by (simp add: close_index_def example_index_def)
  then show ?thesis by (simp only: ex_sweep_full)
qed

lemma ex_best:
  "best_candidates
     [cand_a, cand_b] =
     [cand_a, cand_b]"
  by (simp add: best_candidates_def sort_by_score_def cand_a_def cand_b_def)

lemma ex_vectors:
  "embeddings example_index ! index cand_a = [1, 0]"
  "embeddings example_index ! index cand_b = [0, 1]"
  "embeddings close_index ! index cand_a = close_vector"
  "embeddings close_index ! index cand_b = [1, 0]"
  by (simp_all add: example_index_def close_index_def cand_a_def cand_b_def)

theorem tie_break_resolution_witness:
  "scan_card similarity64 example_cards example_index [''Pikachu''] (Some [0, 1]) =
     Match pikachu_b 20 ''Scoring with Image Tie-break'' \<and>
   similarity64 [0, 1] (embeddings example_index ! index cand_a) = Some 0 \<and>
   similarity64 [0, 1] (embeddings example_index ! index cand_b) = Some 1"
proof -
  have tie: "1 < length (best_candidates [cand_a, cand_b])" by (simp only: ex_best) simp
  have vecs: "\<forall>c\<in>set (best_candidates [cand_a, cand_b]).
                index c < length (embeddings example_index) \<and>
                length (embeddings example_index ! index c) = length [0, 1 :: real]"
    by (simp only: ex_best) (simp add: example_index_def cand_a_def cand_b_def)
  have nums: "map (\<lambda>c. similarity64 [0, 1] (embeddings example_index ! index c))
                (best_candidates [cand_a, cand_b]) = map Some [0, 1]"
    by (simp only: ex_best) (simp add: ex_vectors similarity64_examples)
  from tie_break_resolution[where sim = similarity64 and q = "[0, 1]" and sims = "[0, 1]",
      OF ex_sweep_full tie vecs nums]
  obtain j card where
    fm: "is_first_max [0, 1] j" and
    c: "get_full_card_details (card_id (meta (best_candidates [cand_a, cand_b] ! j))) example_cards = Some card" and
    r: "name card \<noteq> None \<longrightarrow>
          scan_card similarity64 example_cards example_index [''Pikachu''] (Some [0, 1]) =
            Match card (score (best_candidates [cand_a, cand_b] ! j)) ''Scoring with Image Tie-break''"
    by blast
  have "is_first_max [0, 1] (Suc 0)"
    by (simp add: is_first_max_def less_Suc_eq)
  with fm have j: "j = Suc 0"
    by (rule is_first_max_unique)
  have b1: "best_candidates [cand_a, cand_b] ! Suc 0 = cand_b" by (simp only: ex_best) simp
  from c have card: "card = pikachu_b"
    unfolding j b1 by (simp add: ex_lookup cand_b_def)
  have "name pikachu_b \<noteq> None" by (simp add: pikachu_b_def)
  with r have "scan_card similarity64 example_cards example_index [''Pikachu''] (Some [0, 1]) =
                 Match pikachu_b 20 ''Scoring with Image Tie-break''"
    unfolding card j b1 by (simp add: cand_b_def)
  then show ?thesis by (simp add: ex_vectors similarity64_examples)
qed

text \<open>
  Claim C2 as stated fails on stored vectors that the arithmetic does not tell apart.
  The two candidates are tied at 20 by their name, their stored vectors are distinct,
  and the cosine similarity of the query to the second is the higher one; computed in
  binary64 the two similarities are both 1, and the scan resolves to the first.
\<close>

theorem tie_break_rounding:
  "score_all example_cards (card_number_matches (join_space [''Pikachu'']))
     (detected_texts [''Pikachu'']) (enumerate 0 (metadata close_index)) =
     Inr [cand_a, cand_b] \<and>
   best_candidates [cand_a, cand_b] = [cand_a, cand_b] \<and>
   embeddings close_index ! index cand_a \<noteq> embeddings close_index ! index cand_b \<and>
   cosine_similarity [1, 0] (embeddings close_index ! index cand_a) <
     cosine_similarity [1, 0] (embeddings close_index ! index cand_b) \<and>
   similarity64 [1, 0] (embeddings close_index ! index cand_a) = Some 1 \<and>
   similarity64 [1, 0] (embeddings close_index ! index cand_b) = Some 1 \<and>
   scan_card similarity64 example_cards close_index [''Pikachu''] (Some [1, 0]) =
     Match pikachu_a 20 ''Scoring with Image Tie-break''"
proof -
  have te: "tiebreaker_embeddings (embeddings close_index) [cand_a, cand_b] =
              Inr [close_vector, [1, 0]]"
    by (simp add: close_index_def cand_a_def cand_b_def)
  have sm: "similarities similarity64 [1, 0] [close_vector, [1, 0]] = Inr [Some 1, Some 1]"
    by (simp add: similarities_def similarity64_examples) (simp add: close_vector_def)
  have am: "np_argmax [Some 1, Some 1 :: real option] = Inr 0"
    by (simp add: np_argmax_def)
  have bmi: "best_match_index similarity64 close_index [cand_a, cand_b] [1, 0] = Inr 0"
    unfolding best_match_index_def by (simp only: te sm am sum.case)
  have scan: "scan_card similarity64 example_cards close_index [''Pikachu''] (Some [1, 0]) =
                Match pikachu_a 20 ''Scoring with Image Tie-break''"
    by (simp add: scan_card_candidates[OF close_sweep_full] ex_best bmi)
       (simp add: cand_a_def cand_b_def ex_lookup respond_def pikachu_a_def sort_by_score_def)
  have ne: "close_vector \<noteq> [1, 0]" by (simp add: close_vector_def)
  from close_sweep_full ex_best ne cosine_similarity_close scan show ?thesis
    by (simp only: ex_vectors similarity64_examples) simp
qed

section \<open>The tie-break and the full-index search\<close>




















end
